theory Spec2Isabelle
  imports Complex_Main "HOL-Library.Sublist" "HOL-Library.Log_Nat"
begin

section \<open>Strings\<close>

text \<open>
  A JavaScript string is a sequence of UTF-16 code units. It is modelled as a \<^typ>\<open>string\<close>,
  each \<^typ>\<open>char\<close> read as the code unit of the same number, so the model covers the strings
  whose code units lie in U+0000..U+00FF. \<open>startsWith\<close> is \<^const>\<open>prefix\<close>, \<open>includes\<close> is
  \<^const>\<open>sublist\<close>, \<open>slice(n)\<close> is \<^const>\<open>drop\<close>.
\<close>

definition newline :: char where
  "newline = CHR 0x0A"

text \<open>\<open>String.prototype.trim\<close>: the white space and line terminators below U+0100.\<close>

definition is_ws :: "char \<Rightarrow> bool" where
  "is_ws c \<longleftrightarrow> c \<in> set [CHR 0x09, CHR 0x0A, CHR 0x0B, CHR 0x0C, CHR 0x0D, CHR 0x20, CHR 0xA0]"

definition trim :: "string \<Rightarrow> string" where
  "trim s = rev (dropWhile is_ws (rev (dropWhile is_ws s)))"

text \<open>\<open>s.split("\n")\<close>: never empty, the empty string gives one empty piece.\<close>

fun split_nl :: "string \<Rightarrow> string list" where
  "split_nl [] = [[]]"
| "split_nl (c # cs) =
     (if c = newline then [] # split_nl cs
      else (case split_nl cs of l # ls \<Rightarrow> (c # l) # ls | [] \<Rightarrow> [[c]]))"

text \<open>\<open>xs.join(sep)\<close>.\<close>

fun join :: "string \<Rightarrow> string list \<Rightarrow> string" where
  "join sep [] = []"
| "join sep [x] = x"
| "join sep (x # y # ys) = x @ sep @ join sep (y # ys)"

text \<open>\<open>String.prototype.toLowerCase\<close> on code units below U+0100.\<close>

definition lower_char :: "char \<Rightarrow> char" where
  "lower_char c =
     (let n = (of_char c :: nat)
      in if (65 \<le> n \<and> n \<le> 90) \<or> (192 \<le> n \<and> n \<le> 222 \<and> n \<noteq> 215)
         then char_of (n + 32) else c)"

definition toLowerCase :: "string \<Rightarrow> string" where
  "toLowerCase s = map lower_char s"

text \<open>\<open>String(n)\<close> for a non-negative integer \<open>n\<close>, and \<open>Number(s)\<close> for a digit string.\<close>

definition digit_char :: "nat \<Rightarrow> char" where
  "digit_char d = char_of (48 + d)"

fun show_nat :: "nat \<Rightarrow> string" where
  "show_nat n = (if n < 10 then [digit_char n] else show_nat (n div 10) @ [digit_char (n mod 10)])"

definition number_of_digits :: "string \<Rightarrow> nat" where
  "number_of_digits ds = foldl (\<lambda>acc c. 10 * acc + (of_char c - 48)) 0 ds"

text \<open>\<open>s.padStart(2, "0")\<close>.\<close>

definition padStart2 :: "string \<Rightarrow> string" where
  "padStart2 s = (if 2 \<le> length s then s else replicate (2 - length s) CHR ''0'' @ s)"

section \<open>Numbers\<close>

text \<open>
  A JavaScript number is an IEEE-754 binary64 value. The finite ones are rationals, and
  \<open>/\<close> and \<open>*\<close> return the exact result rounded to the nearest value with a 53-bit
  significand, ties to the even significand. \<open>fl\<close> is that rounding for the normal range
  (no overflow, no subnormals: the quotients and products of this program lie between
  \<open>2\<^sup>-\<^sup>3\<^sup>3\<close> and \<open>2\<^sup>7\<close>). Sums of integers and of halves are exact below
  \<open>2\<^sup>5\<^sup>2\<close> and are written with \<open>+\<close>.
\<close>

definition pow2 :: "int \<Rightarrow> rat" where
  "pow2 k = (if 0 \<le> k then 2 ^ nat k else 1 / 2 ^ nat (- k))"

definition rne :: "rat \<Rightarrow> int" where
  "rne t =
     (let f = \<lfloor>t\<rfloor>; d = t - of_int f
      in if d < 1 / 2 then f else if 1 / 2 < d then f + 1 else if even f then f else f + 1)"

text \<open>The binary exponent \<open>\<lfloor>log\<^sub>2 q\<rfloor>\<close> of a positive rational.\<close>

definition expo :: "rat \<Rightarrow> int" where
  "expo q =
     (let (a, b) = quotient_of q; d = bitlen a - bitlen b
      in if pow2 d \<le> q then d else d - 1)"

definition fl :: "rat \<Rightarrow> rat" where
  "fl q =
     (if q = 0 then 0
      else (let u = pow2 (expo \<bar>q\<bar> - 52) in sgn q * of_int (rne (\<bar>q\<bar> / u)) * u))"

definition js_div :: "rat \<Rightarrow> rat \<Rightarrow> rat" where
  "js_div a b = fl (a / b)"

definition js_mul :: "rat \<Rightarrow> rat \<Rightarrow> rat" where
  "js_mul a b = fl (a * b)"

text \<open>\<open>Math.round\<close>: the nearest integer, a half going up.\<close>

definition Math_round :: "rat \<Rightarrow> int" where
  "Math_round x = \<lfloor>x + 1 / 2\<rfloor>"

text \<open>\<open>a % b\<close> on integers: the remainder has the sign of the dividend.\<close>

definition js_rem :: "int \<Rightarrow> int \<Rightarrow> int" where
  "js_rem a b = sgn a * (\<bar>a\<bar> mod \<bar>b\<bar>)"

section \<open>Sections\<close>

datatype SectionStatus = SecOk | SecWarning | SecError

record ParsedSection =
  name :: string
  lines :: "string list"
  status :: SectionStatus

subsection \<open>Section parser\<close>

definition is_marker :: "string \<Rightarrow> bool" where
  "is_marker line \<longleftrightarrow> prefix ''## '' line"

text \<open>
  The first loop of \<open>parseSections\<close>, over the lines, with its two variables: the
  sections closed so far and the active section (\<open>null\<close> is \<open>None\<close>).
\<close>

fun parse_loop ::
  "string list \<Rightarrow> ParsedSection list \<Rightarrow> ParsedSection option
     \<Rightarrow> ParsedSection list \<times> ParsedSection option" where
  "parse_loop [] sections active = (sections, active)"
| "parse_loop (line # rest) sections active =
     (if is_marker line
      then parse_loop rest
             (case active of Some a \<Rightarrow> sections @ [a] | None \<Rightarrow> sections)
             (Some \<lparr>name = trim (drop 3 line), lines = [], status = SecOk\<rparr>)
      else
        (let a = (case active of
                    None \<Rightarrow> \<lparr>name = ''General'', lines = [], status = SecOk\<rparr>
                  | Some a \<Rightarrow> a)
         in parse_loop rest sections (Some (a\<lparr>lines := lines a @ [line]\<rparr>))))"

text \<open>The second loop: the status of one section, from its lines.\<close>

definition classify :: "ParsedSection \<Rightarrow> ParsedSection" where
  "classify section =
     (if list_ex (\<lambda>line. prefix ''ERROR:'' line \<or> sublist ''unavailable'' line) (lines section)
      then section\<lparr>status := SecError\<rparr>
      else if list_ex (\<lambda>line. sublist ''skipped'' line) (lines section)
      then section\<lparr>status := SecWarning\<rparr>
      else section)"

definition parseSections :: "string \<Rightarrow> ParsedSection list" where
  "parseSections content =
     (if trim content = [] then []
      else
        (let (sections, active) = parse_loop (split_nl content) [] None;
             sections = (case active of Some a \<Rightarrow> sections @ [a] | None \<Rightarrow> sections)
         in map classify sections))"

subsection \<open>Health score\<close>

text \<open>
  \<open>healthScore\<close>: the loop adds 1 for an ok section and 0.5 for a warning one; the
  result is \<open>Math.round((points / sections.length) * 100)\<close>, a division and then a
  multiplication of binary64 numbers.
\<close>

definition points_step :: "ParsedSection \<Rightarrow> rat \<Rightarrow> rat" where
  "points_step s points =
     (let points = (if status s = SecOk then points + 1 else points)
      in if status s = SecWarning then points + 1 / 2 else points)"

definition healthScore :: "ParsedSection list \<Rightarrow> int" where
  "healthScore sections =
     (if length sections = 0 then 0
      else Math_round (js_mul (js_div (fold points_step sections 0) (of_nat (length sections))) 100))"

section \<open>Providers and application state\<close>

text \<open>
  \<open>types.ts\<close>. A \<open>Date\<close> is read through \<open>getHours\<close>, \<open>getMinutes\<close> and
  \<open>getSeconds\<close> only. A provider's \<open>query\<close> is an asynchronous operation; it is modelled
  by what its promise settles with in the refresh cycle at hand: a \<open>QueryResult\<close>, or a
  rejection with the thrown value and the instant it happens at.
\<close>

datatype QueryResult = Success string | Failure string

datatype thrown = ErrorObject string | OtherValue string

datatype settled = Resolved QueryResult | Rejected nat thrown

record Provider =
  provider_id :: string
  label :: string
  query :: settled

record Date =
  getHours :: nat
  getMinutes :: nat
  getSeconds :: nat

datatype AppStatus = Idle | Loading | Ok | Error

record AppState =
  lastUpdated :: "Date option"
  status :: AppStatus
  content :: string
  message :: string

section \<open>Summary builder\<close>

definition getProviderSection :: "ParsedSection list \<Rightarrow> string \<Rightarrow> ParsedSection option" where
  "getProviderSection sections providerLabel =
     (let needle = toLowerCase providerLabel
      in find (\<lambda>s. toLowerCase (name s) = needle) sections)"

text \<open>
  The regular expression \<open>/\b(\d{1,3})%\s+remaining\b/i\<close>. \<open>match_here\<close> is a match
  that starts at the head of its argument, the word boundary in front apart: one to
  three digits (a fourth digit leaves no way to reach the percent sign), the percent
  sign, the whole run of white space, which is not empty, the word in any case, and then
  the end of the line or a character that is not a word character. \<open>find_match\<close> tries
  the start positions from the left, as \<open>line.match\<close> does; its flag says whether the
  character in front is a word character, where the leading \<open>\b\<close> fails.
\<close>

definition is_digit :: "char \<Rightarrow> bool" where
  "is_digit c \<longleftrightarrow> (48::nat) \<le> of_char c \<and> (of_char c :: nat) \<le> 57"

definition is_word :: "char \<Rightarrow> bool" where
  "is_word c \<longleftrightarrow>
     (let n = (of_char c :: nat)
      in (48 \<le> n \<and> n \<le> 57) \<or> (65 \<le> n \<and> n \<le> 90) \<or> (97 \<le> n \<and> n \<le> 122) \<or> n = 95)"

definition match_here :: "string \<Rightarrow> string option" where
  "match_here s =
     (let ds = takeWhile is_digit s; r1 = dropWhile is_digit s
      in if length ds < 1 \<or> 3 < length ds then None
         else (case r1 of
                 [] \<Rightarrow> None
               | c # r2 \<Rightarrow>
                   if c \<noteq> CHR ''%'' then None
                   else (let sp = takeWhile is_ws r2; r3 = dropWhile is_ws r2
                         in if sp = [] then None
                            else if toLowerCase (take 9 r3) \<noteq> ''remaining'' then None
                            else (case drop 9 r3 of
                                    [] \<Rightarrow> Some ds
                                  | d # _ \<Rightarrow> if is_word d then None else Some ds))))"

fun find_match :: "bool \<Rightarrow> string \<Rightarrow> string option" where
  "find_match prev_word [] = None"
| "find_match prev_word (c # cs) =
     (case (if prev_word then None else match_here (c # cs)) of
        Some ds \<Rightarrow> Some ds
      | None \<Rightarrow> find_match (is_word c) cs)"

definition extractRemainingPercents :: "ParsedSection option \<Rightarrow> nat list" where
  "extractRemainingPercents section =
     (case section of
        None \<Rightarrow> []
      | Some s \<Rightarrow>
          List.map_filter
            (\<lambda>line. map_option (\<lambda>ds. max 0 (min 100 (number_of_digits ds))) (find_match False line))
            (lines s))"

definition averageRemaining :: "ParsedSection option \<Rightarrow> int option" where
  "averageRemaining section =
     (let points = extractRemainingPercents section
      in if length points = 0 then None
         else Some (Math_round (js_div (of_nat (fold (\<lambda>v sum. sum + v) points 0))
                                       (of_nat (length points)))))"

record ProviderSummary =
  provider :: Provider
  section_of :: "ParsedSection option"
  avgRemaining :: "int option"

definition buildProviderSummaries :: "Provider list \<Rightarrow> ParsedSection list \<Rightarrow> ProviderSummary list" where
  "buildProviderSummaries providers sections =
     map (\<lambda>p. let s = getProviderSection sections (label p)
              in \<lparr>provider = p, section_of = s, avgRemaining = averageRemaining s\<rparr>)
         providers"

section \<open>Query fan-out\<close>

text \<open>
  \<open>Promise.all\<close> over the providers' promises: rejected with the value of the promise
  that rejects first, fulfilled with every result, in the order of the providers,
  otherwise.
\<close>

fun first_rejection :: "settled list \<Rightarrow> (nat \<times> thrown) option" where
  "first_rejection [] = None"
| "first_rejection (Resolved r # ss) = first_rejection ss"
| "first_rejection (Rejected t e # ss) =
     (case first_rejection ss of
        None \<Rightarrow> Some (t, e)
      | Some (t', e') \<Rightarrow> if t' < t then Some (t', e') else Some (t, e))"

definition await_all :: "Provider list \<Rightarrow> thrown + (Provider \<times> QueryResult) list" where
  "await_all providers =
     (case first_rejection (map query providers) of
        Some (t, e) \<Rightarrow> Inl e
      | None \<Rightarrow> Inr (concat (map (\<lambda>p. case query p of Resolved r \<Rightarrow> [(p, r)] | Rejected t e \<Rightarrow> [])
                                  providers)))"

text \<open>\<open>error instanceof Error ? error.message : String(error)\<close>.\<close>

fun exception_text :: "thrown \<Rightarrow> string" where
  "exception_text (ErrorObject m) = m"
| "exception_text (OtherValue s) = s"

text \<open>The loop over the results, with its two arrays.\<close>

fun collect ::
  "(Provider \<times> QueryResult) list \<Rightarrow> string list \<Rightarrow> string list \<Rightarrow> string list \<times> string list" where
  "collect [] sections failures = (sections, failures)"
| "collect ((p, Success out) # rest) sections failures =
     collect rest (sections @ [''## '' @ label p @ [newline] @ out]) failures"
| "collect ((p, Failure err) # rest) sections failures =
     collect rest (sections @ [''## '' @ label p @ [newline] @ ''ERROR: '' @ err])
       (failures @ [label p @ '': '' @ err])"

text \<open>\<open>queryProviders\<close> of \<open>query.ts\<close>; \<open>now\<close> is what \<open>new Date()\<close> returns.\<close>

definition queryProviders :: "Date \<Rightarrow> Provider list \<Rightarrow> AppState" where
  "queryProviders now providers =
     (case await_all providers of
        Inr results \<Rightarrow>
          (let (sections, failures) = collect results [] []
           in \<lparr>lastUpdated = Some now,
               status = (if length failures = 0 then Ok else Error),
               content = join [newline, newline] sections,
               message = (if length failures = 0 then []
                          else show_nat (length failures) @ '' provider(s) failed.'')\<rparr>)
      | Inl e \<Rightarrow>
          \<lparr>lastUpdated = None, status = Error, content = [], message = exception_text e\<rparr>)"

section \<open>Run-once mode\<close>

text \<open>
  What a run does to the outside: a fan-out invokes \<open>query\<close> of each listed provider
  once, a write goes to the standard output, and the exit code is set.
\<close>

datatype effect = FanOut "string list" | Write string | Exit nat

text \<open>\<open>status.toUpperCase()\<close> of the four literals of \<open>AppState["status"]\<close>.\<close>

fun status_upper :: "AppStatus \<Rightarrow> string" where
  "status_upper Idle = ''IDLE''"
| "status_upper Loading = ''LOADING''"
| "status_upper Ok = ''OK''"
| "status_upper Error = ''ERROR''"

definition show_int :: "int \<Rightarrow> string" where
  "show_int i = (if i < 0 then ''-'' @ show_nat (nat (- i)) else show_nat (nat i))"

definition formatClock :: "Date option \<Rightarrow> string" where
  "formatClock v =
     (case v of
        None \<Rightarrow> ''never''
      | Some d \<Rightarrow>
          (let hh = padStart2 (show_nat (getHours d));
               mm = padStart2 (show_nat (getMinutes d));
               ss = padStart2 (show_nat (getSeconds d))
           in hh @ '':'' @ mm @ '':'' @ ss))"

fun statusLabel :: "SectionStatus option \<Rightarrow> string" where
  "statusLabel (Some SecOk) = ''LIVE''"
| "statusLabel (Some SecWarning) = ''PARTIAL''"
| "statusLabel (Some SecError) = ''ISSUE''"
| "statusLabel None = ''IDLE''"

text \<open>\<open>a || b\<close> on strings: the empty string is falsy; \<open>filter(Boolean)\<close> drops it.\<close>

definition or_else :: "string \<Rightarrow> string \<Rightarrow> string" where
  "or_else a b = (if a \<noteq> [] then a else b)"

definition renderOnce :: "AppState \<Rightarrow> string" where
  "renderOnce snapshot =
     (let sections = parseSections (content snapshot);
          score = healthScore sections;
          header = join '' | ''
            [''Quota Status'',
             ''state='' @ status_upper (AppState.status snapshot),
             ''updated='' @ formatClock (lastUpdated snapshot),
             ''health='' @ show_int score @ ''%''];
          summary = join [newline]
            (map (\<lambda>s. name s @ '': '' @ statusLabel (Some (ParsedSection.status s))) sections)
      in join [newline]
           (filter (\<lambda>x. x \<noteq> [])
              [header, [], summary, [], or_else (content snapshot) (message snapshot)]))"

text \<open>The \<open>--once\<close> branch of the entry point built on \<open>queryProviders\<close> and \<open>renderOnce\<close>.\<close>

definition main_once :: "Date \<Rightarrow> Provider list \<Rightarrow> effect list" where
  "main_once now providers =
     (let snapshot = queryProviders now providers
      in [FanOut (map provider_id providers),
          Write (renderOnce snapshot @ [newline]),
          Exit (if AppState.status snapshot = Error then 1 else 0)])"

section \<open>Refresh cycle\<close>

text \<open>
  The mutable state around a refresh: \<open>state\<close> and \<open>inflight\<close>, two module variables in
  \<open>index.ts\<close>, the \<open>useState\<close> value and the \<open>useRef\<close> flag in \<open>useStatusData.ts\<close>.
  A refresh runs in two parts of one thread: up to the \<open>await\<close>, where the queries have
  been invoked, and from the settling of \<open>Promise.all\<close> on.
\<close>

record Store =
  state :: AppState
  inflight :: bool

definition querying_message :: "Provider list \<Rightarrow> string" where
  "querying_message providers = ''Querying '' @ join '', '' (map label providers) @ ''...''"

subsection \<open>\<open>refreshNow\<close> of \<open>useStatusData.ts\<close>\<close>



subsection \<open>\<open>refresh\<close> and \<open>runOnce\<close> of \<open>index.ts\<close>\<close>

definition initial_store :: Store where
  "initial_store =
     \<lparr>state = \<lparr>lastUpdated = None, status = Idle, content = [], message = ''Press r to refresh.''\<rparr>,
      inflight = False\<rparr>"

definition refresh_start :: "Provider list \<Rightarrow> Store \<Rightarrow> Store \<times> effect list" where
  "refresh_start providers g =
     (if inflight g then (g, [])
      else
        (let g = g\<lparr>inflight := True\<rparr>;
             g = g\<lparr>state := (state g)\<lparr>status := Loading\<rparr>\<rparr>;
             g = g\<lparr>state := (state g)\<lparr>message := querying_message providers\<rparr>\<rparr>
         in (g, [FanOut (map provider_id providers)])))"

text \<open>The \<open>try\<close> body after the \<open>await\<close>, the \<open>catch\<close> block, and then the \<open>finally\<close> block.\<close>

definition refresh_finish :: "Date \<Rightarrow> Provider list \<Rightarrow> Store \<Rightarrow> Store" where
  "refresh_finish now providers g =
     (let g =
        (case await_all providers of
           Inr results \<Rightarrow>
             (let g = g\<lparr>state := (state g)\<lparr>lastUpdated := Some now\<rparr>\<rparr>;
                  (sections, failures) = collect results [] []
              in g\<lparr>state := (state g)
                    \<lparr>content := join [newline, newline] sections,
                     status := (if length failures = 0 then Ok else Error),
                     message := (if length failures = 0 then []
                                 else show_nat (length failures) @ '' provider(s) failed.'')\<rparr>\<rparr>)
         | Inl e \<Rightarrow>
             g\<lparr>state := (state g)\<lparr>status := Error, content := [], message := exception_text e\<rparr>\<rparr>)
      in g\<lparr>inflight := False\<rparr>)"

definition refresh :: "Date \<Rightarrow> Provider list \<Rightarrow> Store \<Rightarrow> Store \<times> effect list" where
  "refresh now providers g =
     (if inflight g then (g, [])
      else (let (g, fx) = refresh_start providers g in (refresh_finish now providers g, fx)))"

definition buildOutputHeader :: "Store \<Rightarrow> string" where
  "buildOutputHeader g =
     ''Agent Status TUI | status='' @ status_upper (status (state g)) @
     '' | updated='' @ formatClock (lastUpdated (state g))"

definition runOnce :: "Date \<Rightarrow> Provider list \<Rightarrow> Store \<Rightarrow> Store \<times> effect list" where
  "runOnce now providers g =
     (let (g, fx) = refresh now providers g;
          out = [buildOutputHeader g, [], or_else (content (state g)) (message (state g))]
      in (g, fx @ [Write (join [newline] out @ [newline]),
                   Exit (if status (state g) = Error then 1 else 0)]))"

section \<open>Selection and scrolling\<close>

text \<open>\<open>setSelectedIndex\<close>, \<open>nextProvider\<close> and \<open>prevProvider\<close>; \<open>n\<close> is \<open>providers.length\<close>.\<close>

definition setSelectedIndex :: "nat \<Rightarrow> int \<Rightarrow> int" where
  "setSelectedIndex n index =
     (if n = 0 then 0 else js_rem (js_rem index (int n) + int n) (int n))"

definition nextProvider :: "nat \<Rightarrow> int \<Rightarrow> int" where
  "nextProvider n selected = setSelectedIndex n (js_rem (selected + 1) (max 1 (int n)))"

definition prevProvider :: "nat \<Rightarrow> int \<Rightarrow> int" where
  "prevProvider n selected =
     setSelectedIndex n (js_rem (selected - 1 + max 1 (int n)) (max 1 (int n)))"

text \<open>
  \<open>App.tsx\<close>: the selected index and the scroll offset of the detail pane, the keys that
  move them, and the two effects that run after a render: one on a change of the selected
  index, one on a change of the largest offset.
\<close>

definition clamp :: "int \<Rightarrow> int \<Rightarrow> int \<Rightarrow> int" where
  "clamp v lo hi = min hi (max lo v)"

definition detailHeight :: "int \<Rightarrow> bool \<Rightarrow> bool \<Rightarrow> int" where
  "detailHeight height is_compact is_tiny =
     max 5 (height - (if is_compact then (if is_tiny then 19 else 22) else 12))"

definition maxOffset :: "nat \<Rightarrow> int \<Rightarrow> int" where
  "maxOffset detailLines dh = max 0 (int detailLines - dh)"

record View =
  selectedIndex :: int
  detailOffset :: int

datatype key = KLeft | KRight | KUp | KDown | KPageUp | KPageDown

fun on_key :: "nat \<Rightarrow> int \<Rightarrow> int \<Rightarrow> key \<Rightarrow> View \<Rightarrow> View" where
  "on_key n dh mo KLeft v = v\<lparr>selectedIndex := prevProvider n (selectedIndex v)\<rparr>"
| "on_key n dh mo KRight v = v\<lparr>selectedIndex := nextProvider n (selectedIndex v)\<rparr>"
| "on_key n dh mo KUp v = v\<lparr>detailOffset := clamp (detailOffset v - 1) 0 mo\<rparr>"
| "on_key n dh mo KDown v = v\<lparr>detailOffset := clamp (detailOffset v + 1) 0 mo\<rparr>"
| "on_key n dh mo KPageUp v =
     v\<lparr>detailOffset := clamp (detailOffset v - max 3 (dh div 2)) 0 mo\<rparr>"
| "on_key n dh mo KPageDown v =
     v\<lparr>detailOffset := clamp (detailOffset v + max 3 (dh div 2)) 0 mo\<rparr>"

definition after_render :: "int \<Rightarrow> int \<Rightarrow> int \<Rightarrow> View \<Rightarrow> View" where
  "after_render prev_selected prev_mo mo v =
     (let v = (if selectedIndex v \<noteq> prev_selected then v\<lparr>detailOffset := 0\<rparr> else v)
      in if mo \<noteq> prev_mo then v\<lparr>detailOffset := clamp (detailOffset v) 0 mo\<rparr> else v)"

section \<open>Vocabulary of the specification\<close>

text \<open>
  The words of the specification about one refresh cycle, for the statements below: a
  provider's query is fulfilled when its promise settles with a result, it failed when
  that result is a failure, and its block is the marker line with its label followed by
  its text, or by its error message after \<open>ERROR: \<close>.
\<close>

definition fulfilled :: "Provider \<Rightarrow> bool" where
  "fulfilled p = (case query p of Resolved r \<Rightarrow> True | Rejected t e \<Rightarrow> False)"

definition failed :: "Provider \<Rightarrow> bool" where
  "failed p = (case query p of Resolved (Failure err) \<Rightarrow> True | _ \<Rightarrow> False)"

definition outcome_text :: "Provider \<Rightarrow> string" where
  "outcome_text p =
     (case query p of
        Resolved (Success out) \<Rightarrow> out
      | Resolved (Failure err) \<Rightarrow> err
      | Rejected t e \<Rightarrow> [])"

definition block_body :: "Provider \<Rightarrow> string" where
  "block_body p = (if failed p then ''ERROR: '' @ outcome_text p else outcome_text p)"

definition block_of :: "Provider \<Rightarrow> string" where
  "block_of p = ''## '' @ label p @ [newline] @ block_body p"

text \<open>
  The sections of a list of lines, as pairs of a name and its lines: the lines in front
  of the first marker line, if there are any, under the name \<open>General\<close>; then, for every
  marker line, what follows the marker on it, trimmed, with the lines up to the next
  marker line.
\<close>

function marker_groups :: "string list \<Rightarrow> (string \<times> string list) list" where
  "marker_groups [] = []"
| "marker_groups (l # ls) =
     (trim (drop 3 l), takeWhile (\<lambda>x. \<not> is_marker x) ls)
       # marker_groups (dropWhile (\<lambda>x. \<not> is_marker x) ls)"
  by pat_completeness auto
termination
  by (relation "measure length") (auto simp: length_dropWhile_le less_Suc_eq_le)

definition section_groups :: "string list \<Rightarrow> (string \<times> string list) list" where
  "section_groups ls =
     (let pre = takeWhile (\<lambda>x. \<not> is_marker x) ls
      in (if pre = [] then [] else [(''General'', pre)])
         @ marker_groups (dropWhile (\<lambda>x. \<not> is_marker x) ls))"

text \<open>The sections of \<open>parse_loop\<close> once the active one, if there is one, has been pushed.\<close>

definition flush :: "ParsedSection list \<times> ParsedSection option \<Rightarrow> ParsedSection list" where
  "flush r = (case snd r of Some a \<Rightarrow> fst r @ [a] | None \<Rightarrow> fst r)"


text \<open>
  The text of the run-once summary: the header line with the state, the time of the last
  update and the health percentage; one line for every parsed section, with its name and
  the label of its status; then the content, or the message when the content is empty
  (nothing when both are). And the text that \<open>runOnce\<close> of \<open>index.ts\<close> writes instead:
  a header line with the state and the time, a blank line, and the content or the message.
\<close>

definition header_line :: "AppState \<Rightarrow> string" where
  "header_line snap =
     ''Quota Status | state='' @ status_upper (AppState.status snap)
     @ '' | updated='' @ formatClock (lastUpdated snap)
     @ '' | health='' @ show_int (healthScore (parseSections (content snap))) @ ''%''"

definition section_line :: "ParsedSection \<Rightarrow> string" where
  "section_line s = name s @ '': '' @ statusLabel (Some (ParsedSection.status s))"

definition summary_text :: "AppState \<Rightarrow> string" where
  "summary_text snap =
     header_line snap
     @ concat (map (\<lambda>s. newline # section_line s) (parseSections (content snap)))
     @ (if content snap \<noteq> [] then newline # content snap
        else if message snap \<noteq> [] then newline # message snap
        else [])"

definition legacy_text :: "AppState \<Rightarrow> string" where
  "legacy_text snap =
     ''Agent Status TUI | status='' @ status_upper (AppState.status snap)
     @ '' | updated='' @ formatClock (lastUpdated snap)
     @ [newline, newline]
     @ (if content snap \<noteq> [] then content snap else message snap)"

definition exit_code :: "AppState \<Rightarrow> nat" where
  "exit_code snap = (if AppState.status snap = Error then 1 else 0)"

text \<open>
  The pattern \<open><1-3 digits>% remaining\<close>, that is the regular expression
  \<open>/\b(\d{1,3})%\s+remaining\b/i\<close>, said without a matcher. A line that splits into
  \<open>pre\<close>, \<open>ds\<close> and \<open>post\<close> has a match that captures \<open>ds\<close> there when \<open>pre\<close> does not
  end in a word character (a letter, a digit or the underscore), \<open>ds\<close> is one to three
  digits, and \<open>post\<close> is a percent sign, then some number \<open>j \<ge> 1\<close> of white-space
  characters, then the letters of \<open>remaining\<close>, each in lower or upper case, and then
  the end of the line or a character that is not a word character.
\<close>

definition word_chars :: string where
  "word_chars = ''abcdefghijklmnopqrstuvwxyzABCDEFGHIJKLMNOPQRSTUVWXYZ0123456789_''"

definition same_letter :: "char \<Rightarrow> char \<Rightarrow> bool" where
  "same_letter c l \<longleftrightarrow>
     c = l \<or> (l, c) \<in> set (zip ''abcdefghijklmnopqrstuvwxyz'' ''ABCDEFGHIJKLMNOPQRSTUVWXYZ'')"

definition any_case_remaining :: "string \<Rightarrow> bool" where
  "any_case_remaining w \<longleftrightarrow> list_all2 same_letter w ''remaining''"

definition tail_matches :: "string \<Rightarrow> bool" where
  "tail_matches post \<longleftrightarrow>
     (\<exists>j\<in>{1..length post}.
        take 1 post = ''%''
      \<and> (\<forall>c\<in>set (take j (drop 1 post)). is_ws c)
      \<and> any_case_remaining (take 9 (drop (1 + j) post))
      \<and> (\<forall>c\<in>set (take 1 (drop (10 + j) post)). c \<notin> set word_chars))"

definition pattern_match :: "string \<Rightarrow> string \<Rightarrow> string \<Rightarrow> bool" where
  "pattern_match pre ds post \<longleftrightarrow>
     (\<forall>c\<in>set (take 1 (rev pre)). c \<notin> set word_chars)
   \<and> 1 \<le> length ds \<and> length ds \<le> 3 \<and> (\<forall>c\<in>set ds. c \<in> set ''0123456789'')
   \<and> tail_matches post"

text \<open>
  The matches of a line, as pairs of the position where the captured digits start and
  their number, from left to right; the capture of the leftmost match, which is what
  \<open>line.match\<close> returns; and the captures of all the matches.
\<close>

definition pattern_hits :: "string \<Rightarrow> (nat \<times> nat) list" where
  "pattern_hits line =
     filter (\<lambda>(i, k). pattern_match (take i line) (take k (drop i line)) (drop (i + k) line))
       (List.product [0..<length line] [1, 2, 3])"

definition first_capture :: "string \<Rightarrow> string option" where
  "first_capture line =
     (case pattern_hits line of [] \<Rightarrow> None | (i, k) # _ \<Rightarrow> Some (take k (drop i line)))"

definition all_captures :: "string \<Rightarrow> string list" where
  "all_captures line = map (\<lambda>(i, k). take k (drop i line)) (pattern_hits line)"

text \<open>The number that a string of decimal digits denotes: the sum of its digits times their powers of ten.\<close>

definition digit_value :: "char \<Rightarrow> nat" where
  "digit_value c = length (takeWhile (\<lambda>d. d \<noteq> c) ''0123456789'')"

definition decimal_value :: "string \<Rightarrow> nat" where
  "decimal_value ds = sum_list (map (\<lambda>i. digit_value (rev ds ! i) * 10 ^ i) [0..<length ds])"

text \<open>
  The percentage that a line contributes: the number captured by its leftmost match, if
  it has a match, clamped to \<open>[0, 100]\<close>. And the mean of a list of percentages rounded
  to the nearest integer, a half going up, in exact arithmetic.
\<close>

definition captured_percent :: "string \<Rightarrow> nat option" where
  "captured_percent line = map_option (\<lambda>ds. min 100 (decimal_value ds)) (first_capture line)"

definition rounded_mean :: "nat list \<Rightarrow> int" where
  "rounded_mean vs = round (of_nat (sum_list vs) / of_nat (length vs) :: rat)"

text \<open>
  The average as claim C5 words it: the mean of every percentage that the pattern
  captures on the lines of the section, rounded, and then clamped to \<open>[0, 100]\<close>.
\<close>

definition every_capture :: "ParsedSection \<Rightarrow> nat list" where
  "every_capture s = concat (map (\<lambda>line. map decimal_value (all_captures line)) (lines s))"

definition stated_average :: "ParsedSection \<Rightarrow> int option" where
  "stated_average s =
     (let vs = every_capture s
      in if vs = [] then None else Some (min 100 (max 0 (rounded_mean vs))))"

section \<open>Selection: cyclic navigation\<close>

lemma js_rem_nonneg: "0 \<le> a \<Longrightarrow> 0 < b \<Longrightarrow> js_rem a b = a mod b"
  by (cases "a = 0") (simp_all add: js_rem_def)

lemma setSelectedIndex_in_range:
  assumes "0 < n" "0 \<le> x" "x < int n"
  shows "setSelectedIndex n x = x"
proof -
  have "js_rem x (int n) = x" using assms by (simp add: js_rem_nonneg)
  moreover have "js_rem (x + int n) (int n) = x" using assms by (simp add: js_rem_nonneg)
  ultimately show ?thesis using assms by (simp add: setSelectedIndex_def)
qed

lemma nextProvider_mod:
  assumes "0 < n" "0 \<le> i" "i < int n"
  shows "nextProvider n i = (i + 1) mod int n"
proof -
  have m: "max 1 (int n) = int n" using assms by simp
  have "js_rem (i + 1) (int n) = (i + 1) mod int n" using assms by (simp add: js_rem_nonneg)
  moreover have "0 \<le> (i + 1) mod int n" "(i + 1) mod int n < int n" using assms by simp_all
  ultimately show ?thesis using assms(1) by (simp add: nextProvider_def m setSelectedIndex_in_range)
qed

lemma prevProvider_mod:
  assumes "0 < n" "0 \<le> i" "i < int n"
  shows "prevProvider n i = (i - 1 + int n) mod int n"
proof -
  have m: "max 1 (int n) = int n" using assms by simp
  have "js_rem (i - 1 + int n) (int n) = (i - 1 + int n) mod int n"
    using assms by (simp add: js_rem_nonneg)
  moreover have "0 \<le> (i - 1 + int n) mod int n" "(i - 1 + int n) mod int n < int n"
    using assms by simp_all
  ultimately show ?thesis using assms(1) by (simp add: prevProvider_def m setSelectedIndex_in_range)
qed

lemma after_render_reset:
  "selectedIndex v \<noteq> prev \<Longrightarrow> detailOffset (after_render prev pm (maxOffset l d) v) = 0"
  by (simp add: after_render_def maxOffset_def clamp_def Let_def)

text \<open>
  Claim C8. With \<open>n > 0\<close> providers and the selected index \<open>i\<close> in \<open>[0, n)\<close>,
  \<open>nextProvider\<close> selects \<open>(i + 1) mod n\<close> and \<open>prevProvider\<close> selects
  \<open>(i - 1 + n) mod n\<close>, also as the right and left keys of \<open>App\<close> invoke them; and
  whenever a key changes the selected index, the effects that run after the next render
  leave the scroll offset of the detail pane at 0, whatever the largest offset was and
  has become.
\<close>

theorem provider_navigation_cyclic:
  assumes "0 < n" and "0 \<le> i" and "i < int n"
  shows "nextProvider n i = (i + 1) mod int n
       \<and> prevProvider n i = (i - 1 + int n) mod int n
       \<and> selectedIndex (on_key n dh mo KRight (v\<lparr>selectedIndex := i\<rparr>)) = (i + 1) mod int n
       \<and> selectedIndex (on_key n dh mo KLeft (v\<lparr>selectedIndex := i\<rparr>)) = (i - 1 + int n) mod int n
       \<and> (selectedIndex (on_key n dh mo k v) \<noteq> selectedIndex v \<longrightarrow>
              detailOffset (after_render (selectedIndex v) mo (maxOffset l d) (on_key n dh mo k v)) = 0)"
  using assms
  by (simp add: nextProvider_mod prevProvider_mod after_render_reset)

text \<open>
  With three providers, "previous" from index 0 selects 2 and "next" from index 2
  selects 0; the left key pressed at index 0 with the offset at 4 leaves the offset at 0.
\<close>

theorem provider_navigation_cyclic_witness:
  "prevProvider 3 0 = 2 \<and> nextProvider 3 2 = 0
   \<and> detailOffset (after_render 0 4 (maxOffset 30 10)
        (on_key 3 10 4 KLeft \<lparr>selectedIndex = 0, detailOffset = 4\<rparr>)) = 0"
proof -
  let ?v = "\<lparr>selectedIndex = 0, detailOffset = 4\<rparr>"
  have n: "(0::nat) < 3" and z: "(0::int) \<le> 0" "(0::int) \<le> 2"
    and b: "(0::int) < int 3" "(2::int) < int 3" by simp_all
  note t0 = provider_navigation_cyclic [OF n z(1) b(1), of 10 4 ?v KLeft 30 10]
  note t2 = provider_navigation_cyclic [OF n z(2) b(2), of 10 4 ?v KLeft 30 10]
  have ch: "selectedIndex (on_key 3 10 4 KLeft ?v) \<noteq> selectedIndex ?v"
    by code_simp
  from t0 ch have r: "detailOffset (after_render (selectedIndex ?v) 4 (maxOffset 30 10) (on_key 3 10 4 KLeft ?v)) = 0"
    by blast
  from t0 have p: "prevProvider 3 0 = 2" by simp
  from t2 have q: "nextProvider 3 2 = 0" by simp
  from p q r show ?thesis by simp
qed

section \<open>Query fan-out: the snapshot\<close>

lemma first_rejection_None_iff:
  "first_rejection ss = None \<longleftrightarrow> (\<forall>s\<in>set ss. \<exists>r. s = Resolved r)"
  by (induction ss rule: first_rejection.induct) (auto split: option.splits)


lemma fulfilled_iff: "fulfilled p \<longleftrightarrow> (\<exists>r. query p = Resolved r)"
  by (auto simp: fulfilled_def split: settled.splits)

lemma first_rejection_fulfilled:
  "first_rejection (map query ps) = None \<longleftrightarrow> (\<forall>p\<in>set ps. fulfilled p)"
  by (simp add: first_rejection_None_iff fulfilled_iff)

lemma collect_results:
  "\<forall>p\<in>set ps. fulfilled p \<Longrightarrow>
   collect (concat (map (\<lambda>p. case query p of Resolved r \<Rightarrow> [(p, r)] | Rejected t e \<Rightarrow> []) ps)) secs fails =
     (secs @ map block_of ps, fails @ map (\<lambda>p. label p @ '': '' @ (case query p of Resolved (Failure err) \<Rightarrow> err | _ \<Rightarrow> [])) (filter failed ps))"
proof (induction ps arbitrary: secs fails)
  case Nil
  then show ?case by simp
next
  case (Cons p ps)
  from Cons.prems obtain r where r: "query p = Resolved r" by (auto simp: fulfilled_iff)
  from Cons.prems have rest: "\<forall>p\<in>set ps. fulfilled p" by simp
  show ?case
  proof (cases r)
    case (Success out)
    with r show ?thesis
      by (simp add: Cons.IH [OF rest] block_of_def block_body_def outcome_text_def failed_def)
  next
    case (Failure err)
    with r show ?thesis
      by (simp add: Cons.IH [OF rest] block_of_def block_body_def outcome_text_def failed_def)
  qed
qed

lemma queryProviders_fulfilled:
  assumes "\<forall>p\<in>set ps. fulfilled p"
  shows "queryProviders now ps =
     \<lparr>lastUpdated = Some now,
      status = (if length (filter failed ps) = 0 then Ok else Error),
      content = join [newline, newline] (map block_of ps),
      message = (if length (filter failed ps) = 0 then []
                 else show_nat (length (filter failed ps)) @ '' provider(s) failed.'')\<rparr>"
proof -
  have "first_rejection (map query ps) = None"
    using assms by (simp add: first_rejection_fulfilled)
  then show ?thesis
    using collect_results [OF assms, of "[]" "[]"]
    by (simp add: queryProviders_def await_all_def)
qed


lemma refresh_finish_fulfilled:
  assumes "\<forall>p\<in>set ps. fulfilled p"
  shows "state (refresh_finish now ps g) = queryProviders now ps"
proof -
  have "first_rejection (map query ps) = None"
    using assms by (simp add: first_rejection_fulfilled)
  then show ?thesis
    by (cases "state g")
       (simp add: refresh_finish_def queryProviders_def await_all_def Let_def split: prod.splits)
qed

text \<open>
  Claim C1, as amended. When every query of a fan-out is fulfilled, \<open>queryProviders\<close>
  returns the snapshot whose content is the blocks of the providers, in the order of the
  providers, joined with the separator of two line feeds (a blank line between two
  blocks), the block of a provider being \<open>"## " + label + "\n" + text\<close> for a success and
  \<open>"## " + label + "\nERROR: " + message\<close> for a failure; whose status is \<open>ok\<close> when no
  query failed and \<open>error\<close> otherwise; whose message is empty when no query failed and
  \<open>"<n> provider(s) failed."\<close> with \<open>n\<close> the number of failures otherwise; and whose
  time stamp is the instant of completion. \<open>refresh\<close> of \<open>index.ts\<close> leaves the same
  snapshot in its state.
\<close>

theorem queryProviders_snapshot:
  assumes "\<forall>p\<in>set ps. fulfilled p"
  shows "queryProviders now ps =
     \<lparr>lastUpdated = Some now,
      status = (if length (filter failed ps) = 0 then Ok else Error),
      content = join [newline, newline] (map block_of ps),
      message = (if length (filter failed ps) = 0 then []
                 else show_nat (length (filter failed ps)) @ '' provider(s) failed.'')\<rparr>
   \<and> state (refresh_finish now ps g) = queryProviders now ps"
  using assms queryProviders_fulfilled refresh_finish_fulfilled by blast



text \<open>
  Three providers, the second of which fails with \<open>timeout\<close>: the status is \<open>error\<close>,
  the message counts one failure and the line \<open>ERROR: timeout\<close> is in the content.
\<close>

theorem queryProviders_snapshot_witness:
  "queryProviders \<lparr>getHours = 9, getMinutes = 5, getSeconds = 0\<rparr>
     [\<lparr>provider_id = ''a'', label = ''Alpha'', query = Resolved (Success ''fine'')\<rparr>,
      \<lparr>provider_id = ''b'', label = ''Beta'', query = Resolved (Failure ''timeout'')\<rparr>,
      \<lparr>provider_id = ''c'', label = ''Gamma'', query = Resolved (Success ''ok'')\<rparr>]
   = \<lparr>lastUpdated = Some \<lparr>getHours = 9, getMinutes = 5, getSeconds = 0\<rparr>,
      status = Error,
      content = ''## Alpha\<newline>fine\<newline>\<newline>## Beta\<newline>ERROR: timeout\<newline>\<newline>## Gamma\<newline>ok'',
      message = ''1 provider(s) failed.''\<rparr>"
proof -
  let ?ps = "[\<lparr>provider_id = ''a'', label = ''Alpha'', query = Resolved (Success ''fine'')\<rparr>,
      \<lparr>provider_id = ''b'', label = ''Beta'', query = Resolved (Failure ''timeout'')\<rparr>,
      \<lparr>provider_id = ''c'', label = ''Gamma'', query = Resolved (Success ''ok'')\<rparr>]"
  have h: "\<forall>p\<in>set ?ps. fulfilled p" by code_simp
  have n: "length (filter failed ?ps) = 1" by code_simp
  have c: "join [newline, newline] (map block_of ?ps)
      = ''## Alpha\<newline>fine\<newline>\<newline>## Beta\<newline>ERROR: timeout\<newline>\<newline>## Gamma\<newline>ok''"
    by code_simp
  have m: "show_nat 1 @ '' provider(s) failed.'' = ''1 provider(s) failed.''" by code_simp
  show ?thesis
    unfolding queryProviders_snapshot [OF h, THEN conjunct1] n c using m by simp
qed

text \<open>
  Claim C1 as stated has the content be the concatenation of the blocks. With two
  providers the content is not the concatenation of their two blocks: the separator
  stands between them.
\<close>

theorem queryProviders_concatenation_counterexample:
  "content (queryProviders \<lparr>getHours = 9, getMinutes = 5, getSeconds = 0\<rparr>
     [\<lparr>provider_id = ''a'', label = ''Alpha'', query = Resolved (Success ''fine'')\<rparr>,
      \<lparr>provider_id = ''b'', label = ''Beta'', query = Resolved (Failure ''timeout'')\<rparr>])
   \<noteq> concat (map block_of
     [\<lparr>provider_id = ''a'', label = ''Alpha'', query = Resolved (Success ''fine'')\<rparr>,
      \<lparr>provider_id = ''b'', label = ''Beta'', query = Resolved (Failure ''timeout'')\<rparr>])"
  by code_simp


section \<open>Refresh cycle: the in-flight flag\<close>



section \<open>Section parser\<close>

lemma parseSections_flush:
  "parseSections c = (if trim c = [] then [] else map classify (flush (parse_loop (split_nl c) [] None)))"
  by (cases "parse_loop (split_nl c) [] None")
     (simp add: parseSections_def flush_def split: option.splits)

lemma parse_loop_groups:
  "map (\<lambda>s. (name s, lines s)) (flush (parse_loop ls secs active)) =
     map (\<lambda>s. (name s, lines s)) secs @
       (case active of
          None \<Rightarrow> section_groups ls
        | Some a \<Rightarrow> (name a, lines a @ takeWhile (\<lambda>x. \<not> is_marker x) ls)
                      # marker_groups (dropWhile (\<lambda>x. \<not> is_marker x) ls))"
proof (induction ls arbitrary: secs active)
  case Nil
  then show ?case by (simp add: flush_def section_groups_def split: option.splits)
next
  case (Cons l ls)
  show ?case
  proof (cases "is_marker l")
    case True
    then show ?thesis
      by (simp add: Cons.IH section_groups_def split: option.splits)
  next
    case False
    then show ?thesis
      by (simp add: Cons.IH section_groups_def Let_def split: option.splits)
  qed
qed

lemma classify_name_lines [simp]:
  "name (classify s) = name s" "lines (classify s) = lines s"
  by (simp_all add: classify_def)

lemma parseSections_groups:
  "map (\<lambda>s. (name s, lines s)) (parseSections c) =
     (if trim c = [] then [] else section_groups (split_nl c))"
  by (simp add: parseSections_flush o_def parse_loop_groups)

lemma filter_takeWhile_dropWhile:
  "filter P xs = takeWhile P xs @ filter P (tl (dropWhile P xs))"
  by (induction xs) simp_all

lemma marker_groups_concat:
  "concat (map snd (marker_groups ls)) = filter (\<lambda>x. \<not> is_marker x) (tl ls)"
proof (induction ls rule: marker_groups.induct)
  case 1
  then show ?case by simp
next
  case (2 l ls)
  then show ?case
    using filter_takeWhile_dropWhile [of "\<lambda>x. \<not> is_marker x" ls] by simp
qed

lemma section_groups_concat:
  "concat (map snd (section_groups ls)) = filter (\<lambda>x. \<not> is_marker x) ls"
  using filter_takeWhile_dropWhile [of "\<lambda>x. \<not> is_marker x" ls]
  by (simp add: section_groups_def Let_def marker_groups_concat)

lemma parseSections_lines:
  "trim c \<noteq> [] \<Longrightarrow>
   concat (map lines (parseSections c)) = filter (\<lambda>x. \<not> is_marker x) (split_nl c)"
proof -
  assume nt: "trim c \<noteq> []"
  have "concat (map lines (parseSections c))
      = concat (map snd (map (\<lambda>s. (name s, lines s)) (parseSections c)))"
    by (simp add: o_def)
  also have "\<dots> = concat (map snd (section_groups (split_nl c)))"
    using nt by (simp only: parseSections_groups if_False)
  finally show ?thesis by (simp only: section_groups_concat)
qed

text \<open>
  Claim C2, as amended. For content that is empty or all white space \<open>parseSections\<close>
  returns no section. For any other content it splits the content at the line feeds;
  the lines in front of the first marker line, if there are any, make a section named
  \<open>General\<close>; every line that begins with \<open>"## "\<close> opens a section named by the rest of
  that line with the white space at both ends removed, and closes the one before; and
  every other line is appended as it is, in order, to the section that is open, blank
  lines included: the lines of the sections, one section after the other, are the lines
  of the content that are not marker lines.
\<close>

theorem parseSections_structure:
  "map (\<lambda>s. (name s, lines s)) (parseSections c) =
     (if trim c = [] then [] else section_groups (split_nl c))
   \<and> (trim c \<noteq> [] \<longrightarrow>
        concat (map lines (parseSections c)) = filter (\<lambda>l. \<not> is_marker l) (split_nl c))"
  using parseSections_groups parseSections_lines by blast

text \<open>
  Content with a line in front of the first marker, a marker with blanks around the
  name, a blank line inside a section and a marker at the end.
\<close>

theorem parseSections_structure_witness:
  "map (\<lambda>s. (name s, lines s)) (parseSections ''intro\<newline>## A \<newline>x\<newline>\<newline>y\<newline>## B'')
     = [(''General'', [''intro'']), (''A'', [''x'', [], ''y'']), (''B'', [])]
   \<and> concat (map lines (parseSections ''intro\<newline>## A \<newline>x\<newline>\<newline>y\<newline>## B''))
     = [''intro'', ''x'', [], ''y'']"
proof -
  let ?c = "''intro\<newline>## A \<newline>x\<newline>\<newline>y\<newline>## B''"
  have nt: "trim ?c \<noteq> []" by code_simp
  have g: "(if trim ?c = [] then [] else section_groups (split_nl ?c))
     = [(''General'', [''intro'']), (''A'', [''x'', [], ''y'']), (''B'', [])]"
    by code_simp
  have f: "filter (\<lambda>l. \<not> is_marker l) (split_nl ?c) = [''intro'', ''x'', [], ''y'']"
    by code_simp
  from parseSections_structure [of ?c] nt
  have "map (\<lambda>s. (name s, lines s)) (parseSections ?c)
          = (if trim ?c = [] then [] else section_groups (split_nl ?c))"
    and "concat (map lines (parseSections ?c)) = filter (\<lambda>l. \<not> is_marker l) (split_nl ?c)"
    by blast+
  with g f show ?thesis by (simp only:)
qed

text \<open>
  Claim C2 as stated fails in two places. Content of one blank has one line, which is
  not a marker line and stands in front of any marker, and yet there is no \<open>General\<close>
  section; and the section opened by the line \<open>"##  A "\<close> is not named by the rest of
  that line, which is \<open>" A "\<close>.
\<close>

theorem parseSections_counterexample:
  "parseSections '' '' = [] \<and> map name (parseSections ''##  A '') \<noteq> [drop 3 ''##  A '']"
  by code_simp

lemma parse_loop_status:
  "\<forall>s\<in>set secs. ParsedSection.status s = SecOk \<Longrightarrow>
   \<forall>a. active = Some a \<longrightarrow> ParsedSection.status a = SecOk \<Longrightarrow>
   \<forall>s\<in>set (flush (parse_loop ls secs active)). ParsedSection.status s = SecOk"
proof (induction ls arbitrary: secs active)
  case Nil
  then show ?case by (auto simp: flush_def split: option.splits)
next
  case (Cons l ls)
  show ?case
  proof (cases "is_marker l")
    case True
    let ?secs = "case active of Some a \<Rightarrow> secs @ [a] | None \<Rightarrow> secs"
    let ?new = "\<lparr>name = trim (drop 3 l), lines = [], status = SecOk\<rparr>"
    have 1: "\<forall>s\<in>set ?secs. ParsedSection.status s = SecOk"
      using Cons.prems by (auto split: option.splits)
    have 2: "\<forall>a. Some ?new = Some a \<longrightarrow> ParsedSection.status a = SecOk" by simp
    from Cons.IH [OF 1 2] True show ?thesis by simp
  next
    case False
    let ?a = "case active of None \<Rightarrow> \<lparr>name = ''General'', lines = [], status = SecOk\<rparr> | Some a \<Rightarrow> a"
    have 2: "\<forall>a. Some (?a\<lparr>lines := lines ?a @ [l]\<rparr>) = Some a \<longrightarrow> ParsedSection.status a = SecOk"
      using Cons.prems(2) by (auto split: option.splits)
    from Cons.IH [OF Cons.prems(1) 2] False show ?thesis by (simp add: Let_def)
  qed
qed

lemma classify_status:
  "ParsedSection.status s = SecOk \<Longrightarrow>
   ParsedSection.status (classify s) =
     (if \<exists>l\<in>set (lines s). prefix ''ERROR:'' l \<or> sublist ''unavailable'' l then SecError
      else if \<exists>l\<in>set (lines s). sublist ''skipped'' l then SecWarning
      else SecOk)"
  by (simp add: classify_def list_ex_iff)

text \<open>
  Claim C3. The status of every section that \<open>parseSections\<close> returns is \<open>error\<close> if one
  of its lines starts with \<open>ERROR:\<close> or contains \<open>unavailable\<close>; otherwise \<open>warning\<close> if
  one of its lines contains \<open>skipped\<close>; otherwise \<open>ok\<close>; whichever line of the section
  it is.
\<close>

theorem section_status_priority:
  "\<forall>s\<in>set (parseSections c).
     ParsedSection.status s =
       (if \<exists>l\<in>set (lines s). prefix ''ERROR:'' l \<or> sublist ''unavailable'' l then SecError
        else if \<exists>l\<in>set (lines s). sublist ''skipped'' l then SecWarning
        else SecOk)"
proof (cases "trim c = []")
  case True
  then show ?thesis by (simp add: parseSections_def)
next
  case False
  have ok: "\<forall>s\<in>set (flush (parse_loop (split_nl c) [] None)). ParsedSection.status s = SecOk"
    by (rule parse_loop_status) simp_all
  show ?thesis
  proof
    fix s assume "s \<in> set (parseSections c)"
    with False obtain s0 where s0: "s0 \<in> set (flush (parse_loop (split_nl c) [] None))"
      and s: "s = classify s0"
      by (auto simp: parseSections_flush)
    from ok s0 have "ParsedSection.status s0 = SecOk" by blast
    from classify_status [OF this] s show "ParsedSection.status s =
       (if \<exists>l\<in>set (lines s). prefix ''ERROR:'' l \<or> sublist ''unavailable'' l then SecError
        else if \<exists>l\<in>set (lines s). sublist ''skipped'' l then SecWarning
        else SecOk)" by simp
  qed
qed


text \<open>
  A provider's output whose only marked line is \<open>Quota        skipped (no token)\<close>: the
  section is classified \<open>warning\<close>.
\<close>

theorem section_status_priority_witness:
  "\<lparr>name = ''Codex'', lines = [''Plan pro'', ''Quota        skipped (no token)''],
     status = SecWarning\<rparr>
     \<in> set (parseSections ''## Codex\<newline>Plan pro\<newline>Quota        skipped (no token)'')
   \<and> (if \<exists>l\<in>set [''Plan pro'', ''Quota        skipped (no token)''].
            prefix ''ERROR:'' l \<or> sublist ''unavailable'' l then SecError
       else if \<exists>l\<in>set [''Plan pro'', ''Quota        skipped (no token)'']. sublist ''skipped'' l
       then SecWarning else SecOk) = SecWarning"
proof -
  let ?c = "''## Codex\<newline>Plan pro\<newline>Quota        skipped (no token)''"
  let ?s = "\<lparr>name = ''Codex'', lines = [''Plan pro'', ''Quota        skipped (no token)''],
     status = SecWarning\<rparr>"
  have mem: "?s \<in> set (parseSections ?c)" by code_simp
  from section_status_priority [of ?c] mem
  have "ParsedSection.status ?s =
       (if \<exists>l\<in>set (lines ?s). prefix ''ERROR:'' l \<or> sublist ''unavailable'' l then SecError
        else if \<exists>l\<in>set (lines ?s). sublist ''skipped'' l then SecWarning
        else SecOk)" by (rule bspec)
  then have "(if \<exists>l\<in>set [''Plan pro'', ''Quota        skipped (no token)''].
            prefix ''ERROR:'' l \<or> sublist ''unavailable'' l then SecError
       else if \<exists>l\<in>set [''Plan pro'', ''Quota        skipped (no token)'']. sublist ''skipped'' l
       then SecWarning else SecOk) = SecWarning"
    by (simp only: ParsedSection.simps)
  with mem show ?thesis by (intro conjI)
qed

section \<open>Fan-out and parser together\<close>



declare split_nl.simps(2) [simp del]















section \<open>Run-once mode\<close>

lemma join_eq_Nil_iff:
  "\<forall>x\<in>set xs. x \<noteq> [] \<Longrightarrow> join sep xs = [] \<longleftrightarrow> xs = []"
  by (induction sep xs rule: join.induct) auto

lemma join_newline_concat:
  "xs \<noteq> [] \<Longrightarrow> newline # join [newline] xs = concat (map (\<lambda>l. newline # l) xs)"
  by (induction "[newline]" xs rule: join.induct) auto

lemma renderOnce_summary_text: "renderOnce snap = summary_text snap"
proof -
  let ?secs = "parseSections (content snap)"
  let ?lines = "map section_line ?secs"
  have l: "map (\<lambda>s. name s @ '': '' @ statusLabel (Some (ParsedSection.status s))) ?secs = ?lines"
    by (simp add: section_line_def)
  have "join [newline] ?lines = [] \<longleftrightarrow> ?lines = []"
    by (rule join_eq_Nil_iff) (auto simp: section_line_def)
  then have s: "join [newline] ?lines = [] \<longleftrightarrow> ?secs = []" by simp
  have c: "?secs \<noteq> [] \<Longrightarrow>
      newline # join [newline] ?lines = concat (map (\<lambda>s. newline # section_line s) ?secs)"
    using join_newline_concat [of ?lines] by (simp add: o_def)
  have r: "renderOnce snap =
      join [newline] (filter (\<lambda>x. x \<noteq> [])
        [header_line snap, [], join [newline] ?lines, [], or_else (content snap) (message snap)])"
    unfolding renderOnce_def Let_def l by (simp add: header_line_def)
  have h: "header_line snap \<noteq> []" by (simp add: header_line_def)
  show ?thesis
  proof (cases "?secs = []")
    case True
    with s h show ?thesis
      unfolding r by (simp add: summary_text_def or_else_def)
  next
    case False
    with s have ne: "join [newline] ?lines \<noteq> []" by simp
    from c [OF False] have c': "concat (map (\<lambda>s. newline # section_line s) ?secs)
        = newline # join [newline] ?lines" by simp
    show ?thesis
      unfolding r summary_text_def c' using ne h by (simp add: or_else_def)
  qed
qed

lemma refresh_finish_state:
  "lastUpdated (state g) = None \<Longrightarrow> state (refresh_finish now ps g) = queryProviders now ps"
  by (cases "state g")
     (auto simp: refresh_finish_def queryProviders_def Let_def split: sum.splits prod.splits)

lemma refresh_initial:
  "refresh now ps initial_store =
     (\<lparr>state = queryProviders now ps, inflight = False\<rparr>, [FanOut (map provider_id ps)])"
proof -
  have "lastUpdated (state (fst (refresh_start ps initial_store))) = None"
    by (simp add: refresh_start_def initial_store_def Let_def)
  from refresh_finish_state [OF this, of now ps]
  show ?thesis
    by (simp add: refresh_def refresh_start_def initial_store_def Let_def refresh_finish_def
        split: sum.splits prod.splits)
qed

text \<open>
  Claim C9, as amended. The run-once branch of the entry point built on
  \<open>queryProviders\<close> and \<open>renderOnce\<close> performs exactly one fan-out, writes the header line
  with the state, the time of the last update and the health percentage, then one line
  for every parsed section naming its status, then the content (or the message when the
  content is empty), and sets the exit code 1 when the status is \<open>error\<close> and 0
  otherwise. \<open>runOnce\<close> of \<open>index.ts\<close>, started in the initial state, performs exactly one
  fan-out as well, reaches the same snapshot and exits with the same code, and writes a
  header line with the state and the time only, a blank line, and the content or the
  message.
\<close>

theorem run_once_output:
  "main_once now ps =
     [FanOut (map provider_id ps),
      Write (summary_text (queryProviders now ps) @ [newline]),
      Exit (exit_code (queryProviders now ps))]
   \<and> runOnce now ps initial_store =
       (\<lparr>state = queryProviders now ps, inflight = False\<rparr>,
        [FanOut (map provider_id ps),
         Write (legacy_text (queryProviders now ps) @ [newline]),
         Exit (exit_code (queryProviders now ps))])"
  by (simp add: main_once_def renderOnce_summary_text runOnce_def refresh_initial
      buildOutputHeader_def legacy_text_def exit_code_def or_else_def Let_def)

text \<open>A run with one success and one failure.\<close>

theorem run_once_output_witness:
  "main_once \<lparr>getHours = 9, getMinutes = 5, getSeconds = 0\<rparr>
     [\<lparr>provider_id = ''a'', label = ''Alpha'', query = Resolved (Success ''80% remaining'')\<rparr>,
      \<lparr>provider_id = ''b'', label = ''Beta'', query = Resolved (Failure ''timeout'')\<rparr>]
   = [FanOut [''a'', ''b''],
      Write ''Quota Status | state=ERROR | updated=09:05:00 | health=50%\<newline>Alpha: LIVE\<newline>Beta: ISSUE\<newline>## Alpha\<newline>80% remaining\<newline>\<newline>## Beta\<newline>ERROR: timeout\<newline>'',
      Exit 1]"
proof -
  let ?now = "\<lparr>getHours = 9, getMinutes = 5, getSeconds = 0\<rparr>"
  let ?ps = "[\<lparr>provider_id = ''a'', label = ''Alpha'', query = Resolved (Success ''80% remaining'')\<rparr>,
      \<lparr>provider_id = ''b'', label = ''Beta'', query = Resolved (Failure ''timeout'')\<rparr>]"
  have "main_once ?now ?ps =
     [FanOut (map provider_id ?ps),
      Write (summary_text (queryProviders ?now ?ps) @ [newline]),
      Exit (exit_code (queryProviders ?now ?ps))]"
    using run_once_output [of ?now ?ps] by (rule conjunct1)
  also have "\<dots> = [FanOut [''a'', ''b''],
      Write ''Quota Status | state=ERROR | updated=09:05:00 | health=50%\<newline>Alpha: LIVE\<newline>Beta: ISSUE\<newline>## Alpha\<newline>80% remaining\<newline>\<newline>## Beta\<newline>ERROR: timeout\<newline>'',
      Exit 1]"
    by code_simp
  finally show ?thesis .
qed

text \<open>
  Claim C9 as stated fails on \<open>runOnce\<close> of \<open>index.ts\<close>: with one provider that succeeds,
  the health is 100 and the one section is \<open>Alpha\<close>, and the text written holds neither
  the health percentage nor a line naming the status of that section.
\<close>

theorem run_once_legacy_counterexample:
  "snd (runOnce \<lparr>getHours = 9, getMinutes = 5, getSeconds = 0\<rparr>
     [\<lparr>provider_id = ''a'', label = ''Alpha'', query = Resolved (Success ''fine'')\<rparr>]
     initial_store)
   = [FanOut [''a''],
      Write ''Agent Status TUI | status=OK | updated=09:05:00\<newline>\<newline>## Alpha\<newline>fine\<newline>'',
      Exit 0]
   \<and> healthScore (parseSections (content (queryProviders \<lparr>getHours = 9, getMinutes = 5, getSeconds = 0\<rparr>
     [\<lparr>provider_id = ''a'', label = ''Alpha'', query = Resolved (Success ''fine'')\<rparr>]))) = 100
   \<and> \<not> sublist ''100%'' ''Agent Status TUI | status=OK | updated=09:05:00\<newline>\<newline>## Alpha\<newline>fine\<newline>''
   \<and> \<not> sublist ''Alpha: LIVE'' ''Agent Status TUI | status=OK | updated=09:05:00\<newline>\<newline>## Alpha\<newline>fine\<newline>''"
  by code_simp

section \<open>Numbers: rounding a quotient\<close>

lemma pow2_powi: "pow2 k = 2 powi k"
  by (simp add: pow2_def power_int_def field_simps power_inverse)

lemma pow2_pos [simp]: "0 < pow2 k"
  by (simp add: pow2_powi)

lemma pow2_add: "pow2 (a + b) = pow2 a * pow2 b"
  by (simp add: pow2_powi power_int_add)

lemma pow2_mono: "a \<le> b \<Longrightarrow> pow2 a \<le> pow2 b"
  by (simp add: pow2_powi power_int_increasing)

lemma pow2_nat: "0 \<le> k \<Longrightarrow> pow2 k = of_int (2 ^ nat k)"
  by (simp add: pow2_def)

lemma rne_ge: "of_int L \<le> t \<Longrightarrow> L \<le> rne t"
proof -
  assume "of_int L \<le> t"
  then have "L \<le> \<lfloor>t\<rfloor>" by (simp add: le_floor_iff)
  moreover have "\<lfloor>t\<rfloor> \<le> rne t" by (simp add: rne_def Let_def)
  ultimately show ?thesis by simp
qed

lemma rne_lt:
  assumes "t < of_int H - 1 / 2"
  shows "rne t < H"
proof -
  have f: "\<lfloor>t\<rfloor> < H" using assms by (simp add: floor_less_iff)
  show ?thesis
  proof (cases "\<lfloor>t\<rfloor> = H - 1")
    case True
    then have "t - of_int \<lfloor>t\<rfloor> < 1 / 2" using assms by simp
    then show ?thesis using True by (simp add: rne_def Let_def)
  next
    case False
    with f have "\<lfloor>t\<rfloor> + 1 < H" by simp
    moreover have "rne t \<le> \<lfloor>t\<rfloor> + 1" by (simp add: rne_def Let_def)
    ultimately show ?thesis by simp
  qed
qed

lemma expo_le:
  assumes "0 < q"
  shows "pow2 (expo q) \<le> q"
proof -
  obtain a b where ab: "quotient_of q = (a, b)" by (cases "quotient_of q")
  then have b: "0 < b" using quotient_of_denom_pos by blast
  have q: "q = of_int a / of_int b" using ab by (rule quotient_of_div)
  with assms b have a: "0 < a" by (simp add: zero_less_divide_iff)
  let ?d = "bitlen a - bitlen b"
  have ex: "expo q = (if pow2 ?d \<le> q then ?d else ?d - 1)"
    by (simp add: expo_def ab Let_def)
  show ?thesis
  proof (cases "pow2 ?d \<le> q")
    case True
    then show ?thesis by (simp add: ex)
  next
    case False
    have la: "(2::int) ^ nat (bitlen a - 1) \<le> a" and lb: "b < 2 ^ nat (bitlen b)"
      using bitlen_bounds [OF a] bitlen_bounds [OF b] by simp_all
    have ba: "1 \<le> bitlen a" using a by (simp add: bitlen_alt_def)
    have bb: "0 \<le> bitlen b" by (rule bitlen_nonneg)
    have 1: "pow2 (bitlen a - 1) \<le> of_int a"
      using la ba by (simp add: pow2_nat of_int_le_iff [symmetric] del: of_int_le_iff)
    have 2: "of_int b \<le> pow2 (bitlen b)"
      using lb bb by (simp add: pow2_nat less_imp_le of_int_le_iff [symmetric] del: of_int_le_iff)
    have 3: "pow2 (?d - 1) = pow2 (bitlen a - 1) / pow2 (bitlen b)"
      by (simp add: pow2_powi power_int_diff)
    have "pow2 (bitlen a - 1) / pow2 (bitlen b) \<le> of_int a / of_int b"
      by (rule frac_le) (use 1 2 a b in \<open>simp_all add: less_imp_le\<close>)
    with 3 have "pow2 (?d - 1) \<le> of_int a / of_int b" by simp
    then have "pow2 (?d - 1) \<le> q" by (simp only: q)
    with False show ?thesis by (simp add: ex)
  qed
qed


lemma expo_gt:
  assumes "0 < q"
  shows "q < pow2 (expo q + 1)"
proof -
  obtain a b where ab: "quotient_of q = (a, b)" by (cases "quotient_of q")
  then have b: "0 < b" using quotient_of_denom_pos by blast
  have q: "q = of_int a / of_int b" using ab by (rule quotient_of_div)
  with assms b have a: "0 < a" by (simp add: zero_less_divide_iff)
  let ?d = "bitlen a - bitlen b"
  have ex: "expo q = (if pow2 ?d \<le> q then ?d else ?d - 1)"
    by (simp add: expo_def ab Let_def)
  show ?thesis
  proof (cases "pow2 ?d \<le> q")
    case False
    then show ?thesis by (simp add: ex)
  next
    case True
    have la: "a < 2 ^ nat (bitlen a)" and lb: "(2::int) ^ nat (bitlen b - 1) \<le> b"
      using bitlen_bounds [OF a] bitlen_bounds [OF b] by simp_all
    have ba: "0 \<le> bitlen a" by (rule bitlen_nonneg)
    have bb: "1 \<le> bitlen b" using b by (simp add: bitlen_alt_def)
    have 1: "of_int a < pow2 (bitlen a)"
      using la ba by (simp add: pow2_nat of_int_less_iff [symmetric] del: of_int_less_iff)
    have 2: "pow2 (bitlen b - 1) \<le> of_int b"
      using lb bb by (simp add: pow2_nat of_int_le_iff [symmetric] del: of_int_le_iff)
    have "pow2 (bitlen a - (bitlen b - 1)) = pow2 (bitlen a) / pow2 (bitlen b - 1)"
      unfolding pow2_powi by (rule power_int_diff) simp
    moreover have "?d + 1 = bitlen a - (bitlen b - 1)" by simp
    ultimately have 3: "pow2 (?d + 1) = pow2 (bitlen a) / pow2 (bitlen b - 1)"
      by (simp only:)
    have "of_int a / of_int b < pow2 (bitlen a) / pow2 (bitlen b - 1)"
      by (rule frac_less) (use 1 2 a b in \<open>simp_all add: less_imp_le\<close>)
    with 3 have "of_int a / of_int b < pow2 (?d + 1)" by simp
    then have "q < pow2 (?d + 1)" by (simp only: q)
    with True show ?thesis by (simp add: ex)
  qed
qed

lemma expo_bound:
  assumes "0 < q" and "q < 128"
  shows "expo q \<le> 6"
proof (rule ccontr)
  assume "\<not> expo q \<le> 6"
  then have "7 \<le> expo q" by simp
  then have "pow2 7 \<le> pow2 (expo q)" by (rule pow2_mono)
  moreover have "pow2 7 = 128" by (simp add: pow2_def)
  ultimately show False using expo_le [OF assms(1)] assms(2) by simp
qed

lemma scaled_lt:
  fixes B K N m :: int
  assumes "B * (2 * N) < K * m * (2 * N) - m" and "0 < m"
  shows "(of_int B / (2 * of_int m) :: rat) * (2 * of_int N) < of_int (K * N) - 1 / 2"
proof -
  from assms(1) have "(of_int (B * (2 * N)) :: rat) < of_int (K * m * (2 * N) - m)"
    by (simp only: of_int_less_iff)
  then have "(of_int B * (2 * of_int N) :: rat) < of_int K * of_int m * (2 * of_int N) - of_int m"
    by simp
  with assms(2) show ?thesis by (simp add: field_simps)
qed

lemma scaled_lower:
  fixes k N r :: int and u :: rat
  assumes "(2 * k - 1) * N \<le> r" and "0 < u" and "of_int N * u = 1 / 2"
  shows "of_int k \<le> of_int r * u + 1 / 2"
proof -
  from assms(1) have "(of_int ((2 * k - 1) * N) :: rat) \<le> of_int r" by (simp only: of_int_le_iff)
  then have "of_int ((2 * k - 1) * N) * u \<le> of_int r * u"
    using assms(2) by (intro mult_right_mono) simp_all
  moreover have "of_int ((2 * k - 1) * N) * u = (2 * of_int k - 1) * (of_int N * u)"
    by simp
  ultimately have "(2 * of_int k - 1) * (1 / 2) \<le> of_int r * u"
    by (simp only: assms(3))
  moreover have "(2 * of_int k - 1) * (1 / 2) = (of_int k - 1 / 2 :: rat)"
    by (simp add: algebra_simps)
  ultimately show ?thesis by linarith
qed

lemma scaled_upper:
  fixes k N r :: int and u :: rat
  assumes "r < (2 * k + 1) * N" and "0 < u" and "of_int N * u = 1 / 2"
  shows "of_int r * u + 1 / 2 < of_int k + 1"
proof -
  from assms(1) have "r \<le> (2 * k + 1) * N - 1" by simp
  then have "(of_int r :: rat) \<le> of_int ((2 * k + 1) * N - 1)" by (simp only: of_int_le_iff)
  then have "of_int r * u \<le> of_int ((2 * k + 1) * N - 1) * u"
    using assms(2) by (intro mult_right_mono) simp_all
  moreover have "of_int ((2 * k + 1) * N - 1) * u = (2 * of_int k + 1) * (of_int N * u) - u"
    by (simp add: algebra_simps)
  ultimately have "of_int r * u \<le> (2 * of_int k + 1) * (1 / 2) - u"
    by (simp only: assms(3))
  moreover have "(2 * of_int k + 1) * (1 / 2) = (of_int k + 1 / 2 :: rat)"
    by (simp add: algebra_simps)
  ultimately show ?thesis using assms(2) by linarith
qed

lemma fl_pos:
  "0 < q \<Longrightarrow> fl q = of_int (rne (q / pow2 (expo q - 52))) * pow2 (expo q - 52)"
  by (simp add: fl_def Let_def)

text \<open>
  A quotient of two integers, at most 100 and with a denominator below \<open>2\<^sup>4\<^sup>6\<close>: the
  binary64 quotient rounds, with \<open>Math.round\<close>, to the same integer as the exact one. The
  exact quotient lies at least \<open>1 / (2 n)\<close> below the next half-integer, which is more
  than the spacing of the binary64 numbers below 128.
\<close>

lemma Math_round_fl:
  fixes s n :: nat
  assumes n: "0 < n" "n < 2 ^ 46" and s: "s \<le> 100 * n"
  shows "Math_round (fl (of_nat s / of_nat n)) = \<lfloor>(of_nat s / of_nat n :: rat) + 1 / 2\<rfloor>"
proof (cases "s = 0")
  case True
  then show ?thesis by (simp add: Math_round_def fl_def)
next
  case False
  let ?q = "of_nat s / of_nat n :: rat"
  let ?k = "\<lfloor>?q + 1 / 2\<rfloor>"
  have qpos: "0 < ?q" using False n by simp
  have "?q \<le> 100" using s n
    by (simp add: pos_divide_le_eq)
  then have q128: "?q < 128" by simp
  define e where "e = expo ?q"
  have e6: "e \<le> 6" unfolding e_def by (rule expo_bound [OF qpos q128])
  define N :: int where "N = 2 ^ nat (51 - e)"
  define u where "u = pow2 (e - 52)"
  have upos: "0 < u" by (simp add: u_def)
  have uN: "u * (2 * of_int N) = 1"
  proof -
    have "pow2 (52 - e) = 2 * of_int N"
    proof -
      have "nat (52 - e) = Suc (nat (51 - e))" using e6 by simp
      then show ?thesis using e6 by (simp add: pow2_def N_def)
    qed
    moreover have "pow2 (e - 52) * pow2 (52 - e) = 1"
      by (simp flip: pow2_add add: pow2_def)
    ultimately show ?thesis by (simp add: u_def)
  qed
  have Nu: "of_int N * u = 1 / 2" using uN by (simp add: field_simps)
  have Npos: "0 < N" by (simp add: N_def)
  have Nbig: "int n < 2 * N"
  proof -
    have "(2::int) ^ 45 \<le> 2 ^ nat (51 - e)"
      using e6 by (intro power_increasing) simp_all
    then have "(2::int) ^ 46 \<le> 2 * N" by (simp add: N_def)
    moreover have "int n < 2 ^ 46" using n(2) by (metis of_nat_less_iff of_nat_numeral of_nat_power)
    ultimately show ?thesis by simp
  qed
  let ?t = "?q * (2 * of_int N)"
  have fl_eq: "fl ?q = of_int (rne ?t) * u"
  proof -
    have "inverse u = 2 * of_int N" using uN by (rule inverse_unique)
    then have t: "?q / u = ?t" by (simp only: divide_inverse)
    have "fl ?q = of_int (rne (?q / u)) * u"
      unfolding u_def e_def by (rule fl_pos [OF qpos])
    then show ?thesis unfolding t .
  qed
  have k1: "of_int ?k \<le> ?q + 1 / 2" by (rule of_int_floor_le)
  have k2: "?q + 1 / 2 < of_int ?k + 1"
    using floor_correct [of "?q + 1 / 2"] by (simp only: of_int_add of_int_1)
  define A where "A = (2 * ?k + 1) * int n"
  define B where "B = 2 * int s"
  have npos: "(0::rat) < of_nat n" using n by simp
  have qB: "?q = of_int B / (2 * of_nat n)" by (simp add: B_def)
  have "(of_int B :: rat) < of_int A"
  proof -
    from k2 have "?q < (2 * of_int ?k + 1) / 2" by (simp add: field_simps)
    then have "of_nat s < (2 * of_int ?k + 1) / 2 * (of_nat n :: rat)"
      using npos by (simp add: pos_divide_less_eq)
    then show ?thesis by (simp add: A_def B_def field_simps)
  qed
  then have BA: "B + 1 \<le> A" by simp
  have lo: "of_int ((2 * ?k - 1) * N) \<le> ?t"
  proof -
    from k1 have "(2 * of_int ?k - 1) / 2 \<le> ?q" by (simp add: field_simps)
    then have "(2 * of_int ?k - 1) / 2 * (2 * of_int N) \<le> ?t"
      using Npos by (intro mult_right_mono) simp_all
    then show ?thesis by simp
  qed
  have hi: "?t < of_int ((2 * ?k + 1) * N) - 1 / 2"
  proof -
    have "(B + 1) * (2 * N) \<le> A * (2 * N)"
      using BA Npos by (intro mult_right_mono) simp_all
    then have "B * (2 * N) + 2 * N \<le> A * (2 * N)" by (simp add: algebra_simps)
    with Nbig have "B * (2 * N) < A * (2 * N) - int n" by simp
    then have "B * (2 * N) < (2 * ?k + 1) * int n * (2 * N) - int n" by (simp only: A_def)
    from scaled_lt [OF this] n(1) show ?thesis by (simp add: qB)
  qed
  have r1: "(2 * ?k - 1) * N \<le> rne ?t" using lo by (rule rne_ge)
  have r2: "rne ?t < (2 * ?k + 1) * N" using hi by (rule rne_lt)
  have "of_int ?k \<le> fl ?q + 1 / 2"
    unfolding fl_eq using r1 upos Nu by (rule scaled_lower)
  moreover have "fl ?q + 1 / 2 < of_int ?k + 1"
    unfolding fl_eq using r2 upos Nu by (rule scaled_upper)
  ultimately have "\<lfloor>fl ?q + 1 / 2\<rfloor> = ?k" by (rule floor_unique)
  then show ?thesis by (simp only: Math_round_def)
qed


section \<open>Health score\<close>

text \<open>
  Claim C4 at twenty sections, eleven of them ok, one warning and eight error. The claim
  gives \<open>round(100 \<times> 11.5 / 20) = round(57.5) = 58\<close>. The code divides first:
  \<open>11.5 / 20\<close> is the binary64 number just below 0.575, its product with 100 is the
  binary64 number just below 57.5, and \<open>Math.round\<close> returns 57. The score of the empty
  list is 0, as the claim has it.
\<close>

theorem healthScore_rounding_divergence:
  "healthScore (parseSections (concat (replicate 11 ''## a\<newline>fine\<newline>''
        @ [''## b\<newline>quota skipped\<newline>'']
        @ replicate 8 ''## c\<newline>ERROR: timeout\<newline>''))) = 57
   \<and> map ParsedSection.status (parseSections (concat (replicate 11 ''## a\<newline>fine\<newline>''
        @ [''## b\<newline>quota skipped\<newline>'']
        @ replicate 8 ''## c\<newline>ERROR: timeout\<newline>'')))
     = replicate 11 SecOk @ [SecWarning] @ replicate 8 SecError
   \<and> round (100 * (11 + 0.5 * 1) / 20 :: rat) = 58
   \<and> healthScore [] = 0"
  by code_simp

section \<open>The pattern of a remaining percentage\<close>

text \<open>
  The matcher of the code, \<open>find_match\<close>, returns the capture of the leftmost match of
  the pattern as \<open>pattern_match\<close> describes it, and \<open>number_of_digits\<close> reads a capture as
  the decimal number it denotes.
\<close>

lemma mem_chars_iff: "c \<in> set L \<longleftrightarrow> (of_char c :: nat) \<in> set (map of_char L)"
  by (induction L) auto

lemma is_digit_iff: "is_digit c \<longleftrightarrow> c \<in> set ''0123456789''"
  unfolding mem_chars_iff [of c "''0123456789''"] is_digit_def
  by simp arith

lemma number_of_digits_snoc:
  "number_of_digits (ds @ [c]) = 10 * number_of_digits ds + (of_char c - 48)"
  by (simp add: number_of_digits_def)

lemma of_char_lower:
  "(of_char (lower_char c) :: nat) =
     (if (65 \<le> (of_char c :: nat) \<and> (of_char c :: nat) \<le> 90)
         \<or> (192 \<le> (of_char c :: nat) \<and> (of_char c :: nat) \<le> 222 \<and> (of_char c :: nat) \<noteq> 215)
      then of_char c + 32 else of_char c)"
  by (simp add: lower_char_def Let_def)

lemma char_eq_code: "c = d \<longleftrightarrow> (of_char c :: nat) = of_char d"
  by simp

lemma is_word_iff: "is_word c \<longleftrightarrow> c \<in> set word_chars"
  unfolding word_chars_def mem_chars_iff [of c "''abcdefghijklmnopqrstuvwxyzABCDEFGHIJKLMNOPQRSTUVWXYZ0123456789_''"] is_word_def Let_def
  by simp arith

lemma digit_value_eq: "is_digit c \<Longrightarrow> of_char c - 48 = digit_value c"
proof -
  assume "is_digit c"
  then have "c \<in> set ''0123456789''" by (simp only: is_digit_iff)
  then have "c = CHR ''0'' \<or> c = CHR ''1'' \<or> c = CHR ''2'' \<or> c = CHR ''3'' \<or> c = CHR ''4''
      \<or> c = CHR ''5'' \<or> c = CHR ''6'' \<or> c = CHR ''7'' \<or> c = CHR ''8'' \<or> c = CHR ''9''"
    by simp
  then show ?thesis
    by (elim disjE) (simp_all add: digit_value_def)
qed

lemma decimal_value_snoc:
  "decimal_value (ds @ [c]) = 10 * decimal_value ds + digit_value c"
proof -
  have "[0..<length (ds @ [c])] = 0 # map Suc [0..<length ds]"
    by (simp add: upt_conv_Cons map_Suc_upt del: upt_Suc)
  then have "decimal_value (ds @ [c]) =
      digit_value c + sum_list (map (\<lambda>i. digit_value (rev ds ! i) * 10 ^ Suc i) [0..<length ds])"
    by (simp add: decimal_value_def o_def)
  also have "(\<lambda>i. digit_value (rev ds ! i) * 10 ^ Suc i) = (\<lambda>i. 10 * (digit_value (rev ds ! i) * 10 ^ i))"
    by (rule ext) simp
  also have "sum_list (map (\<lambda>i. 10 * (digit_value (rev ds ! i) * 10 ^ i)) [0..<length ds])
      = 10 * decimal_value ds"
    unfolding decimal_value_def by (rule sum_list_const_mult)
  finally show ?thesis by simp
qed

lemma lower_char_same_letter:
  assumes "l \<in> set ''remaining''"
  shows "lower_char c = l \<longleftrightarrow> same_letter c l"
proof -
  from assms have "l = CHR ''r'' \<or> l = CHR ''e'' \<or> l = CHR ''m'' \<or> l = CHR ''a''
      \<or> l = CHR ''i'' \<or> l = CHR ''n'' \<or> l = CHR ''g''" by auto
  then have "(of_char (lower_char c) :: nat) = of_char l \<longleftrightarrow> same_letter c l"
    unfolding same_letter_def of_char_lower
    by (elim disjE) (simp_all add: char_eq_code [of c], arith+)
  then show ?thesis by (simp only: char_eq_code [of "lower_char c" l])
qed

lemma number_of_digits_decimal:
  "\<forall>c\<in>set ds. is_digit c \<Longrightarrow> number_of_digits ds = decimal_value ds"
proof (induction ds rule: rev_induct)
  case Nil
  then show ?case by (simp add: number_of_digits_def decimal_value_def)
next
  case (snoc c ds)
  then show ?case
    by (simp add: number_of_digits_snoc decimal_value_snoc digit_value_eq)
qed

lemma toLowerCase_remaining: "toLowerCase w = ''remaining'' \<longleftrightarrow> any_case_remaining w"
proof -
  have "toLowerCase w = ''remaining'' \<longleftrightarrow> list_all2 (\<lambda>c l. lower_char c = l) w ''remaining''"
    unfolding toLowerCase_def by (simp only: list.rel_eq [symmetric] list.rel_map)
  also have "\<dots> \<longleftrightarrow> list_all2 same_letter w ''remaining''"
  proof
    assume "list_all2 (\<lambda>c l. lower_char c = l) w ''remaining''"
    then show "list_all2 same_letter w ''remaining''"
      by (rule list.rel_mono_strong) (simp only: lower_char_same_letter)
  next
    assume "list_all2 same_letter w ''remaining''"
    then show "list_all2 (\<lambda>c l. lower_char c = l) w ''remaining''"
      by (rule list.rel_mono_strong) (simp only: lower_char_same_letter)
  qed
  finally show ?thesis by (simp only: any_case_remaining_def)
qed

lemma same_letter_r_not_ws: "same_letter c CHR ''r'' \<Longrightarrow> \<not> is_ws c"
  by (auto simp: same_letter_def is_ws_def)

lemma any_case_head:
  assumes "any_case_remaining (take 9 xs)"
  shows "\<exists>h t. xs = h # t \<and> \<not> is_ws h"
proof -
  from assms have l: "list_all2 same_letter (take 9 xs) ''remaining''"
    by (simp only: any_case_remaining_def)
  then have "length (take 9 xs) = 9" by (auto dest: list_all2_lengthD)
  then obtain h t where x: "xs = h # t" by (cases xs) auto
  with l have "same_letter h CHR ''r''" by simp
  then have "\<not> is_ws h" by (rule same_letter_r_not_ws)
  with x show ?thesis by blast
qed

lemma takeWhile_split:
  assumes "\<forall>x\<in>set (take j xs). P x" and "drop j xs = h # t" and "\<not> P h"
  shows "takeWhile P xs = take j xs" and "dropWhile P xs = drop j xs"
proof -
  have xs: "xs = take j xs @ h # t" using assms(2) by (metis append_take_drop_id)
  have "takeWhile P (take j xs @ h # t) = take j xs"
    using assms(1,3) by (simp add: takeWhile_append2)
  with xs show "takeWhile P xs = take j xs" by simp
  have "dropWhile P (take j xs @ h # t) = h # t"
    using assms(1,3) by (simp add: dropWhile_append2)
  with xs assms(2) show "dropWhile P xs = drop j xs" by simp
qed

lemma tail_matches_run:
  "tail_matches post \<longleftrightarrow>
     (case post of
        [] \<Rightarrow> False
      | c # r \<Rightarrow>
          c = CHR ''%'' \<and> takeWhile is_ws r \<noteq> []
        \<and> any_case_remaining (take 9 (dropWhile is_ws r))
        \<and> (\<forall>c\<in>set (take 1 (drop 9 (dropWhile is_ws r))). c \<notin> set word_chars))"
proof (cases post)
  case Nil
  then show ?thesis by (simp add: tail_matches_def)
next
  case (Cons c r)
  show ?thesis
  proof
    assume "tail_matches post"
    then obtain j where j: "1 \<le> j" and c0: "take 1 post = ''%''"
      and ws0: "\<forall>x\<in>set (take j (drop 1 post)). is_ws x"
      and w0: "any_case_remaining (take 9 (drop (1 + j) post))"
      and b0: "\<forall>x\<in>set (take 1 (drop (10 + j) post)). x \<notin> set word_chars"
      unfolding tail_matches_def by auto
    have e: "10 + j = Suc (9 + j)" by simp
    have d10: "drop (10 + j) post = drop (9 + j) r" by (simp only: Cons e drop_Suc_Cons)
    from c0 Cons have c: "c = CHR ''%''" by simp
    from ws0 Cons have ws: "\<forall>x\<in>set (take j r). is_ws x" by simp
    from w0 Cons have w: "any_case_remaining (take 9 (drop j r))" by simp
    from b0 have b: "\<forall>x\<in>set (take 1 (drop (9 + j) r)). x \<notin> set word_chars"
      unfolding d10 .
    from any_case_head [OF w] obtain h t where d: "drop j r = h # t" and h: "\<not> is_ws h"
      by blast
    note sp = takeWhile_split [OF ws d h]
    from d have "j < length r" by (metis drop_eq_Nil leI list.distinct(1))
    with j have "takeWhile is_ws r \<noteq> []" unfolding sp(1) by auto
    moreover have "drop 9 (drop j r) = drop (9 + j) r" by simp
    ultimately show "case post of
        [] \<Rightarrow> False
      | c # r \<Rightarrow>
          c = CHR ''%'' \<and> takeWhile is_ws r \<noteq> []
        \<and> any_case_remaining (take 9 (dropWhile is_ws r))
        \<and> (\<forall>c\<in>set (take 1 (drop 9 (dropWhile is_ws r))). c \<notin> set word_chars)"
      using Cons c w b by (simp add: sp)
  next
    assume r: "case post of
        [] \<Rightarrow> False
      | c # r \<Rightarrow>
          c = CHR ''%'' \<and> takeWhile is_ws r \<noteq> []
        \<and> any_case_remaining (take 9 (dropWhile is_ws r))
        \<and> (\<forall>c\<in>set (take 1 (drop 9 (dropWhile is_ws r))). c \<notin> set word_chars)"
    let ?j = "length (takeWhile is_ws r)"
    have tk: "take ?j r = takeWhile is_ws r" by (simp add: takeWhile_eq_take [symmetric])
    have dr: "drop ?j r = dropWhile is_ws r" by (simp add: dropWhile_eq_drop [symmetric])
    have "1 \<le> ?j" using r Cons by (cases "takeWhile is_ws r") auto
    moreover have "?j \<le> length post" using Cons by (simp add: le_SucI length_takeWhile_le)
    moreover have "\<forall>x\<in>set (take ?j (drop 1 post)). is_ws x"
      using Cons by (auto simp: tk dest: set_takeWhileD)
    moreover have "any_case_remaining (take 9 (drop (1 + ?j) post))"
      using r Cons by (simp add: dr)
    moreover have "\<forall>x\<in>set (take 1 (drop (10 + ?j) post)). x \<notin> set word_chars"
    proof -
      have e: "10 + ?j = Suc (9 + ?j)" by simp
      have "drop (10 + ?j) post = drop (9 + ?j) r" by (simp only: Cons e drop_Suc_Cons)
      then have "drop (10 + ?j) post = drop 9 (drop ?j r)" by (simp only: drop_drop)
      with r Cons show ?thesis by (simp add: dr)
    qed
    moreover have "take 1 post = ''%''" using r Cons by simp
    ultimately show "tail_matches post"
      unfolding tail_matches_def by (intro bexI [of _ ?j]) auto
  qed
qed

text \<open>Evaluation of \<open>tail_matches\<close> goes through the run of white space, not through every \<open>j\<close>.\<close>

declare tail_matches_run [code]

lemma tail_matches_percent:
  "tail_matches post \<Longrightarrow> \<exists>r. post = CHR ''%'' # r"
  by (cases post) (simp_all add: tail_matches_run)

lemma core_iff:
  assumes "1 \<le> k" and "k \<le> 3"
  shows "(1 \<le> length (take k s) \<and> length (take k s) \<le> 3
          \<and> (\<forall>c\<in>set (take k s). c \<in> set ''0123456789'') \<and> tail_matches (drop k s))
     \<longleftrightarrow> length (takeWhile is_digit s) = k \<and> tail_matches (dropWhile is_digit s)"
proof
  assume a: "1 \<le> length (take k s) \<and> length (take k s) \<le> 3
          \<and> (\<forall>c\<in>set (take k s). c \<in> set ''0123456789'') \<and> tail_matches (drop k s)"
  then obtain r where d: "drop k s = CHR ''%'' # r" using tail_matches_percent by blast
  have nd: "\<not> is_digit CHR ''%''" by (simp add: is_digit_def)
  from a have dg: "\<forall>x\<in>set (take k s). is_digit x" by (simp only: is_digit_iff) blast
  note sp = takeWhile_split [OF dg d nd]
  from d have "k < length s" by (metis drop_eq_Nil leI list.distinct(1))
  then have "length (take k s) = k" by simp
  then have 1: "length (takeWhile is_digit s) = k" by (simp only: sp(1))
  from a have "tail_matches (drop k s)" by blast
  then have 2: "tail_matches (dropWhile is_digit s)" by (simp only: sp(2))
  from 1 2 show "length (takeWhile is_digit s) = k \<and> tail_matches (dropWhile is_digit s)" ..
next
  assume b: "length (takeWhile is_digit s) = k \<and> tail_matches (dropWhile is_digit s)"
  then have k: "k = length (takeWhile is_digit s)" by simp
  have tk: "take k s = takeWhile is_digit s"
    unfolding k by (rule takeWhile_eq_take [symmetric])
  have dr: "drop k s = dropWhile is_digit s"
    unfolding k by (rule dropWhile_eq_drop [symmetric])
  have "\<forall>c\<in>set (takeWhile is_digit s). c \<in> set ''0123456789''"
    by (auto simp only: is_digit_iff [symmetric] dest: set_takeWhileD)
  with b assms show "1 \<le> length (take k s) \<and> length (take k s) \<le> 3
          \<and> (\<forall>c\<in>set (take k s). c \<in> set ''0123456789'') \<and> tail_matches (drop k s)"
    unfolding tk dr by simp
qed

lemma match_here_tail:
  "match_here s =
     (if 1 \<le> length (takeWhile is_digit s) \<and> length (takeWhile is_digit s) \<le> 3
         \<and> tail_matches (dropWhile is_digit s)
      then Some (takeWhile is_digit s) else None)"
proof (cases "1 \<le> length (takeWhile is_digit s) \<and> length (takeWhile is_digit s) \<le> 3")
  case False
  then have c: "length (takeWhile is_digit s) < 1 \<or> 3 < length (takeWhile is_digit s)"
    by arith
  have "match_here s = None"
    unfolding match_here_def Let_def using c by (simp only: if_True)
  with False show ?thesis by auto
next
  case True
  then have c: "\<not> (length (takeWhile is_digit s) < 1 \<or> 3 < length (takeWhile is_digit s))"
    by arith
  have m: "match_here s =
      (case dropWhile is_digit s of
         [] \<Rightarrow> None
       | c # r2 \<Rightarrow>
           if c \<noteq> CHR ''%'' then None
           else (let sp = takeWhile is_ws r2; r3 = dropWhile is_ws r2
                 in if sp = [] then None
                    else if toLowerCase (take 9 r3) \<noteq> ''remaining'' then None
                    else (case drop 9 r3 of
                            [] \<Rightarrow> Some (takeWhile is_digit s)
                          | d # _ \<Rightarrow> if is_word d then None else Some (takeWhile is_digit s))))"
    unfolding match_here_def Let_def using c by (simp only: if_False)
  show ?thesis
  proof (cases "dropWhile is_digit s")
    case Nil
    have "match_here s = None" unfolding m Nil by simp
    moreover have "\<not> tail_matches (dropWhile is_digit s)"
      unfolding Nil by (simp add: tail_matches_run)
    ultimately show ?thesis by simp
  next
    case (Cons c r)
    let ?r3 = "dropWhile is_ws r"
    have t: "tail_matches (dropWhile is_digit s) \<longleftrightarrow>
        c = CHR ''%'' \<and> takeWhile is_ws r \<noteq> [] \<and> any_case_remaining (take 9 ?r3)
        \<and> (\<forall>c\<in>set (take 1 (drop 9 ?r3)). c \<notin> set word_chars)"
      unfolding Cons tail_matches_run by simp
    have m2: "match_here s =
        (if c \<noteq> CHR ''%'' then None
         else if takeWhile is_ws r = [] then None
         else if \<not> any_case_remaining (take 9 ?r3) then None
         else (case drop 9 ?r3 of
                 [] \<Rightarrow> Some (takeWhile is_digit s)
               | d # _ \<Rightarrow> if d \<in> set word_chars then None else Some (takeWhile is_digit s)))"
      unfolding m Cons by (simp add: Let_def toLowerCase_remaining is_word_iff split: list.splits)
    show ?thesis
      unfolding m2 t using True by (cases "drop 9 ?r3") auto
  qed
qed

lemma boundary_iff:
  "(\<forall>c\<in>set (take 1 (rev pre)). c \<notin> set word_chars) \<longleftrightarrow> \<not> (pre \<noteq> [] \<and> is_word (last pre))"
  by (cases pre rule: rev_cases) (simp_all add: is_word_iff)

lemma row_filter:
  "filter (\<lambda>k. pattern_match pre (take k s) (drop k s)) [1, 2, 3] =
     (if \<not> (pre \<noteq> [] \<and> is_word (last pre))
         \<and> 1 \<le> length (takeWhile is_digit s) \<and> length (takeWhile is_digit s) \<le> 3
         \<and> tail_matches (dropWhile is_digit s)
      then [length (takeWhile is_digit s)] else [])"
proof -
  let ?n = "length (takeWhile is_digit s)"
  let ?T = "tail_matches (dropWhile is_digit s)"
  let ?B = "\<not> (pre \<noteq> [] \<and> is_word (last pre))"
  have p: "pattern_match pre (take k s) (drop k s) \<longleftrightarrow> ?B \<and> ?n = k \<and> ?T"
    if "1 \<le> k" "k \<le> 3" for k
    unfolding pattern_match_def boundary_iff using core_iff [OF that, of s] by blast
  have p1: "pattern_match pre (take 1 s) (drop 1 s) \<longleftrightarrow> ?B \<and> ?n = 1 \<and> ?T"
    by (rule p) simp_all
  have p2: "pattern_match pre (take 2 s) (drop 2 s) \<longleftrightarrow> ?B \<and> ?n = 2 \<and> ?T"
    by (rule p) simp_all
  have p3: "pattern_match pre (take 3 s) (drop 3 s) \<longleftrightarrow> ?B \<and> ?n = 3 \<and> ?T"
    by (rule p) simp_all
  have "?n = 1 \<or> ?n = 2 \<or> ?n = 3 \<or> \<not> (1 \<le> ?n \<and> ?n \<le> 3)" by arith
  then show ?thesis
    unfolding filter.simps p1 p2 p3 by (elim disjE) simp_all
qed

lemma product_map_Suc:
  "List.product (map Suc xs) ys = map (\<lambda>(i, k). (Suc i, k)) (List.product xs ys)"
  by (induction xs) (simp_all add: o_def)

lemma hits_Cons:
  "filter (\<lambda>(i, k). pattern_match (pre @ take i (c # cs)) (take k (drop i (c # cs))) (drop (i + k) (c # cs)))
      (List.product [0..<length (c # cs)] [1, 2, 3])
   = map (Pair 0) (filter (\<lambda>k. pattern_match pre (take k (c # cs)) (drop k (c # cs))) [1, 2, 3])
     @ map (\<lambda>(i, k). (Suc i, k))
         (filter (\<lambda>(i, k). pattern_match ((pre @ [c]) @ take i cs) (take k (drop i cs)) (drop (i + k) cs))
            (List.product [0..<length cs] [1, 2, 3]))"
proof -
  have u: "[0..<length (c # cs)] = 0 # map Suc [0..<length cs]"
    by (simp add: upt_conv_Cons map_Suc_upt del: upt_Suc)
  show ?thesis
    unfolding u product.simps product_map_Suc filter_append filter_map
    by (simp add: o_def case_prod_unfold)
qed

lemma find_match_hits:
  "find_match (pre \<noteq> [] \<and> is_word (last pre)) s =
     (case filter (\<lambda>(i, k). pattern_match (pre @ take i s) (take k (drop i s)) (drop (i + k) s))
             (List.product [0..<length s] [1, 2, 3]) of
        [] \<Rightarrow> None
      | (i, k) # _ \<Rightarrow> Some (take k (drop i s)))"
proof (induction s arbitrary: pre)
  case Nil
  then show ?case by simp
next
  case (Cons c cs)
  let ?s = "c # cs"
  let ?n = "length (takeWhile is_digit ?s)"
  let ?rest = "filter (\<lambda>(i, k). pattern_match ((pre @ [c]) @ take i cs) (take k (drop i cs)) (drop (i + k) cs))
            (List.product [0..<length cs] [1, 2, 3])"
  have ih: "find_match (is_word c) cs =
      (case ?rest of [] \<Rightarrow> None | (i, k) # _ \<Rightarrow> Some (take k (drop i cs)))"
    using Cons.IH [of "pre @ [c]"] by simp
  have shift: "(case map (\<lambda>(i, k). (Suc i, k)) ?rest of
                  [] \<Rightarrow> None | (i, k) # _ \<Rightarrow> Some (take k (drop i ?s)))
      = (case ?rest of [] \<Rightarrow> None | (i, k) # _ \<Rightarrow> Some (take k (drop i cs)))"
    by (cases ?rest) auto
  show ?case
  proof (cases "\<not> (pre \<noteq> [] \<and> is_word (last pre))
         \<and> 1 \<le> ?n \<and> ?n \<le> 3 \<and> tail_matches (dropWhile is_digit ?s)")
    case True
    then have row: "filter (\<lambda>k. pattern_match pre (take k ?s) (drop k ?s)) [1, 2, 3] = [?n]"
      unfolding row_filter by (rule if_P)
    from True have "1 \<le> ?n \<and> ?n \<le> 3 \<and> tail_matches (dropWhile is_digit ?s)" by blast
    then have mh: "match_here ?s = Some (takeWhile is_digit ?s)"
      unfolding match_here_tail by (rule if_P)
    from True have nb: "\<not> (pre \<noteq> [] \<and> is_word (last pre))" by blast
    have tk: "take ?n ?s = takeWhile is_digit ?s" by (rule takeWhile_eq_take [symmetric])
    have "find_match (pre \<noteq> [] \<and> is_word (last pre)) ?s = Some (takeWhile is_digit ?s)"
      by (simp only: find_match.simps nb if_False mh option.case)
    then show ?thesis
      unfolding hits_Cons row using tk by simp
  next
    case False
    then have row: "filter (\<lambda>k. pattern_match pre (take k ?s) (drop k ?s)) [1, 2, 3] = []"
      unfolding row_filter by (rule if_not_P)
    have "(if pre \<noteq> [] \<and> is_word (last pre) then None else match_here ?s) = None"
    proof (cases "pre \<noteq> [] \<and> is_word (last pre)")
      case True
      then show ?thesis by (rule if_P)
    next
      case nb: False
      with False have "\<not> (1 \<le> ?n \<and> ?n \<le> 3 \<and> tail_matches (dropWhile is_digit ?s))"
        by blast
      then have "match_here ?s = None" unfolding match_here_tail by (rule if_not_P)
      with nb show ?thesis by (simp only: if_False)
    qed
    then have "find_match (pre \<noteq> [] \<and> is_word (last pre)) ?s = find_match (is_word c) cs"
      by (simp only: find_match.simps option.case)
    then show ?thesis
      unfolding hits_Cons row ih by (simp only: list.map append_Nil shift)
  qed
qed

lemma find_match_first_capture: "find_match False line = first_capture line"
  using find_match_hits [of "[]" line] by (simp add: first_capture_def pattern_hits_def)

lemma hits_sound:
  "(i, k) \<in> set (pattern_hits line) \<Longrightarrow>
     pattern_match (take i line) (take k (drop i line)) (drop (i + k) line)"
  by (auto simp: pattern_hits_def)

lemma first_capture_digits:
  assumes "first_capture line = Some ds"
  shows "\<forall>c\<in>set ds. is_digit c"
proof -
  from assms obtain i k r where h: "pattern_hits line = (i, k) # r" and ds: "ds = take k (drop i line)"
    by (auto simp: first_capture_def split: list.splits)
  from h have "(i, k) \<in> set (pattern_hits line)" by simp
  from hits_sound [OF this] have "\<forall>c\<in>set ds. c \<in> set ''0123456789''"
    unfolding pattern_match_def ds by blast
  then show ?thesis unfolding is_digit_iff .
qed

lemma captured_percent_code:
  "map_option (\<lambda>ds. max 0 (min 100 (number_of_digits ds))) (find_match False line) =
     captured_percent line"
proof (cases "first_capture line")
  case None
  then show ?thesis by (simp add: captured_percent_def find_match_first_capture)
next
  case (Some ds)
  from number_of_digits_decimal [OF first_capture_digits [OF Some]] Some
  show ?thesis by (simp add: captured_percent_def find_match_first_capture)
qed

section \<open>Summary builder\<close>

lemma fold_plus_sum: "fold (\<lambda>v sum. sum + v) xs (a::nat) = a + sum_list xs"
  by (induction xs arbitrary: a) simp_all

lemma sum_list_bound: "\<forall>v\<in>set xs. v \<le> (100::nat) \<Longrightarrow> sum_list xs \<le> 100 * length xs"
  by (induction xs) auto

lemma extract_captured:
  "extractRemainingPercents (Some s) = List.map_filter captured_percent (lines s)"
proof -
  have "(\<lambda>line. map_option (\<lambda>ds. max 0 (min 100 (number_of_digits ds))) (find_match False line))
      = captured_percent"
    by (rule ext) (rule captured_percent_code)
  then show ?thesis by (simp add: extractRemainingPercents_def)
qed

lemma map_filter_length: "length (List.map_filter f xs) \<le> length xs"
  by (induction xs) (auto simp: List.map_filter_simps split: option.splits)

lemma captured_le: "\<forall>v\<in>set (List.map_filter captured_percent ls). v \<le> 100"
  by (auto simp: List.map_filter_def captured_percent_def)

lemma averageRemaining_mean:
  assumes "length (lines s) < 2 ^ 32"
  shows "averageRemaining (Some s) =
     (let vs = List.map_filter captured_percent (lines s)
      in if vs = [] then None else Some (rounded_mean vs))"
proof -
  let ?vs = "List.map_filter captured_percent (lines s)"
  show ?thesis
  proof (cases "?vs = []")
    case True
    then show ?thesis by (simp add: averageRemaining_def extract_captured)
  next
    case False
    then have pos: "0 < length ?vs" by simp
    have "length ?vs \<le> length (lines s)" by (rule map_filter_length)
    with assms have "length ?vs < 2 ^ 32" by simp
    also have "(2::nat) ^ 32 < 2 ^ 46" by simp
    finally have small: "length ?vs < 2 ^ 46" .
    have bound: "sum_list ?vs \<le> 100 * length ?vs"
      by (rule sum_list_bound [OF captured_le])
    have "Math_round (js_div (of_nat (sum_list ?vs)) (of_nat (length ?vs))) = rounded_mean ?vs"
      unfolding js_div_def rounded_mean_def round_def
      by (rule Math_round_fl [OF pos small bound])
    with False show ?thesis
      by (simp add: averageRemaining_def extract_captured fold_plus_sum Let_def)
  qed
qed

lemma averageRemaining_None: "averageRemaining None = None"
  by (simp add: averageRemaining_def extractRemainingPercents_def)

text \<open>
  Claim C5, as amended. \<open>buildProviderSummaries\<close> pairs every provider, in the order of
  the list, with the first section whose name equals the provider's label once both are
  in lower case, if there is one. The average remaining is null when there is no such
  section or none of its lines has a match of the pattern \<open><1-3 digits>% remaining\<close>:
  one to three digits that no word character precedes, a percent sign, one or more
  white-space characters, the word \<open>remaining\<close> in any mix of cases, and then no word
  character. Otherwise it is the mean, rounded to the nearest integer with a half going
  up, of one percentage for each line that has a match: the decimal number that the
  leftmost match of the line captures, clamped to \<open>[0, 100]\<close> before the mean is taken;
  further matches on the same line do not count. The mean is the one of exact
  arithmetic: the binary64 division of the code rounds to the same integer, the array
  of lines having, as every JavaScript array, fewer than \<open>2\<^sup>3\<^sup>2\<close> elements.
\<close>

theorem buildProviderSummaries_spec:
  assumes "\<forall>s\<in>set secs. length (lines s) < 2 ^ 32"
  shows "buildProviderSummaries ps secs =
     map (\<lambda>p. \<lparr>provider = p,
              section_of = find (\<lambda>s. toLowerCase (name s) = toLowerCase (label p)) secs,
              avgRemaining =
                (case find (\<lambda>s. toLowerCase (name s) = toLowerCase (label p)) secs of
                   None \<Rightarrow> None
                 | Some s \<Rightarrow>
                     (let vs = List.map_filter captured_percent (lines s)
                      in if vs = [] then None else Some (rounded_mean vs)))\<rparr>) ps"
proof -
  have "averageRemaining (find P secs) =
      (case find P secs of
         None \<Rightarrow> None
       | Some s \<Rightarrow>
           (let vs = List.map_filter captured_percent (lines s)
            in if vs = [] then None else Some (rounded_mean vs)))" for P
  proof (cases "find P secs")
    case None
    then show ?thesis by (simp add: averageRemaining_None)
  next
    case (Some s)
    then have "s \<in> set secs" by (auto simp: find_Some_iff)
    with assms have "length (lines s) < 2 ^ 32" by blast
    from averageRemaining_mean [OF this] Some show ?thesis by simp
  qed
  then show ?thesis
    by (simp add: buildProviderSummaries_def getProviderSection_def Let_def)
qed

text \<open>
  A section named \<open>CODEX\<close> for the provider labelled \<open>Codex\<close>, whose lines give 80, 60
  and 40, the last of them from a line with a second match: the average is 60. The
  provider \<open>Amp\<close> has no section. The section of \<open>Droid\<close> has lines that do not match (four
  digits, a letter before the digits, no white space after the percent sign, a word
  character after \<open>remaining\<close>) and lines that give 100 (from 150), 25 and 9: the average
  is 45, the mean being 44.67.
\<close>

theorem buildProviderSummaries_spec_witness:
  "map avgRemaining (buildProviderSummaries
     [\<lparr>provider_id = ''codex'', label = ''Codex'', query = Resolved (Success [])\<rparr>,
      \<lparr>provider_id = ''amp'', label = ''Amp'', query = Resolved (Success [])\<rparr>,
      \<lparr>provider_id = ''droid'', label = ''Droid'', query = Resolved (Success [])\<rparr>]
     [\<lparr>name = ''General'', lines = [''10% remaining''], status = SecOk\<rparr>,
      \<lparr>name = ''CODEX'', lines = [''5h window'', ''80% remaining'', ''weekly: 60%  Remaining'',
          ''used 12'', ''40% remaining, 20% remaining''], status = SecOk\<rparr>,
      \<lparr>name = ''droid'', lines = [''1234% remaining'', ''x80% remaining'', ''7%remaining'',
          ''150% REMAINING'', ''25%'' @ CHR 0x09 # '' remaining.'', ''9% remaining_'',
          ''50% remainings'', ''left: 9% remaining, 99% remaining''], status = SecWarning\<rparr>])
   = [Some 60, None, Some 45]"
proof -
  let ?ps = "[\<lparr>provider_id = ''codex'', label = ''Codex'', query = Resolved (Success [])\<rparr>,
      \<lparr>provider_id = ''amp'', label = ''Amp'', query = Resolved (Success [])\<rparr>,
      \<lparr>provider_id = ''droid'', label = ''Droid'', query = Resolved (Success [])\<rparr>]"
  let ?secs = "[\<lparr>name = ''General'', lines = [''10% remaining''], status = SecOk\<rparr>,
      \<lparr>name = ''CODEX'', lines = [''5h window'', ''80% remaining'', ''weekly: 60%  Remaining'',
          ''used 12'', ''40% remaining, 20% remaining''], status = SecOk\<rparr>,
      \<lparr>name = ''droid'', lines = [''1234% remaining'', ''x80% remaining'', ''7%remaining'',
          ''150% REMAINING'', ''25%'' @ CHR 0x09 # '' remaining.'', ''9% remaining_'',
          ''50% remainings'', ''left: 9% remaining, 99% remaining''], status = SecWarning\<rparr>]"
  have h: "\<forall>s\<in>set ?secs. length (lines s) < 2 ^ 32" by simp
  have "map avgRemaining (map (\<lambda>p. \<lparr>provider = p,
              section_of = find (\<lambda>s. toLowerCase (name s) = toLowerCase (label p)) ?secs,
              avgRemaining =
                (case find (\<lambda>s. toLowerCase (name s) = toLowerCase (label p)) ?secs of
                   None \<Rightarrow> None
                 | Some s \<Rightarrow>
                     (let vs = List.map_filter captured_percent (lines s)
                      in if vs = [] then None else Some (rounded_mean vs)))\<rparr>) ?ps)
        = [Some 60, None, Some 45]"
    by code_simp
  then show ?thesis by (simp only: buildProviderSummaries_spec [OF h])
qed

text \<open>
  Claim C5 as it was stated, the rounded mean of every percentage that the pattern
  captures, clamped to \<open>[0, 100]\<close>, does not hold. On the line
  \<open>40% remaining, 20% remaining\<close> the pattern captures 40 and 20, whose mean is 30, and
  the code gives 40: \<open>line.match\<close> without the global flag returns the leftmost match
  only. On the lines \<open>150% remaining\<close> and \<open>0% remaining\<close> the pattern captures 150 and 0,
  whose mean of 75 lies in \<open>[0, 100]\<close>, and the code gives 50: it clamps each percentage,
  not the mean.
\<close>

theorem buildProviderSummaries_counterexample:
  "map avgRemaining (buildProviderSummaries
       [\<lparr>provider_id = ''codex'', label = ''Codex'', query = Resolved (Success [])\<rparr>]
       [\<lparr>name = ''Codex'', lines = [''40% remaining, 20% remaining''], status = SecOk\<rparr>])
     = [Some 40]
   \<and> every_capture
       \<lparr>name = ''Codex'', lines = [''40% remaining, 20% remaining''], status = SecOk\<rparr>
     = [40, 20]
   \<and> stated_average
       \<lparr>name = ''Codex'', lines = [''40% remaining, 20% remaining''], status = SecOk\<rparr>
     = Some 30
   \<and> map avgRemaining (buildProviderSummaries
       [\<lparr>provider_id = ''codex'', label = ''Codex'', query = Resolved (Success [])\<rparr>]
       [\<lparr>name = ''Codex'', lines = [''150% remaining'', ''0% remaining''], status = SecOk\<rparr>])
     = [Some 50]
   \<and> every_capture
       \<lparr>name = ''Codex'', lines = [''150% remaining'', ''0% remaining''], status = SecOk\<rparr>
     = [150, 0]
   \<and> stated_average
       \<lparr>name = ''Codex'', lines = [''150% remaining'', ''0% remaining''], status = SecOk\<rparr>
     = Some 75"
  by code_simp

end
